theory Spec2Isabelle
  imports Main "HOL-Library.Word"
begin

unbundle bit_operations_syntax

section \<open>Digits and word-level primitives (uint_t.hh)\<close>

text \<open>
  The embedding fixes the default configuration of \<^verbatim>\<open>uint_t.hh\<close>:
  \<^verbatim>\<open>DIGIT_T = std::uint64_t\<close>, \<^verbatim>\<open>HALF_DIGIT_T = std::uint32_t\<close>, a little-endian
  host, and a compiler that provides \<^verbatim>\<open>__uint128_t\<close> (the branch guarded by
  \<^verbatim>\<open>HAVE____INT128_T\<close>).  A \<^verbatim>\<open>uint_t\<close> is modelled by the digit sequence its
  window \<^verbatim>\<open>[begin(), end())\<close> shows, least significant digit first.  The
  \<^verbatim>\<open>_carry\<close> flag is written by addition and subtraction only and read by none of
  the functions embedded here, so it is left out.
\<close>

type_synonym digit = "64 word"
type_synonym half_digit = "32 word"
type_synonym wide = "128 word"
type_synonym uint_t = "digit list"

text \<open>
  Hence \<^verbatim>\<open>digit_bits = 64\<close>, \<^verbatim>\<open>half_digit_bits = 32\<close> and \<^verbatim>\<open>digit_octets = 8\<close>;
  the definitions below write the numbers.
\<close>

text \<open>
  \<^verbatim>\<open>_bits\<close>: the portable loop of the source (\<^verbatim>\<open>c = x ? 0 : 1; while (x) { x >>= 1; ++c; }\<close>);
  the \<^verbatim>\<open>__builtin_clzll\<close> branch returns the same number, \<^verbatim>\<open>x ? 64 - clz(x) : 1\<close>.
\<close>

function bits_loop :: "digit \<Rightarrow> nat \<Rightarrow> nat" where
  "bits_loop x c = (if x = 0 then c else bits_loop (drop_bit 1 x) (c + 1))"
  by pat_completeness auto
termination
proof (relation "measure (\<lambda>(x, c). unat x)")
  show "wf (measure (\<lambda>(x :: digit, c :: nat). unat x))" by simp
next
  fix x :: digit and c :: nat
  assume "x \<noteq> 0"
  then have "unat x \<noteq> 0" by (simp add: unat_eq_0)
  then have "unat x div 2 < unat x" by simp
  moreover have "unat (drop_bit 1 x) = drop_bit 1 (unat x)"
    by (rule unat_drop_bit_eq)
  moreover have "drop_bit 1 (unat x) = unat x div 2"
    by (simp add: drop_bit_eq_div)
  ultimately have "unat (drop_bit 1 x) < unat x" by simp
  then show "((drop_bit 1 x, c + 1), (x, c)) \<in> measure (\<lambda>(x, c). unat x)"
    by (simp only: in_measure prod.case)
qed

declare bits_loop.simps [simp del]

definition prim_bits :: "digit \<Rightarrow> nat" where
  "prim_bits x = bits_loop x (if x = 0 then 1 else 0)"

text \<open>\<^verbatim>\<open>_mult\<close>, \<^verbatim>\<open>__uint128_t\<close> branch; the pair is (returned high digit, \<^verbatim>\<open>*lo\<close>).\<close>

definition prim_mult :: "digit \<Rightarrow> digit \<Rightarrow> digit \<times> digit" where
  "prim_mult x y =
     (let r = (ucast x :: wide) * (ucast y :: wide)
      in (ucast (drop_bit 64 r), ucast r))"

text \<open>\<^verbatim>\<open>_multadd\<close>, \<^verbatim>\<open>__uint128_t\<close> branch (lines 399-403).\<close>

definition prim_multadd :: "digit \<Rightarrow> digit \<Rightarrow> digit \<Rightarrow> digit \<Rightarrow> digit \<times> digit" where
  "prim_multadd x y a c =
     (let r = (ucast x :: wide) * (ucast y :: wide) + (ucast a :: wide) + (ucast c :: wide)
      in (ucast (drop_bit 64 r), ucast r))"

text \<open>
  \<^verbatim>\<open>_multadd\<close>, the manually split half-digit fallback for 64-bit digits
  (lines 405-416), compiled when neither intrinsics nor \<^verbatim>\<open>__uint128_t\<close> exist.
  Every intermediate is a 64-bit \<^verbatim>\<open>digit\<close> and wraps.
\<close>

definition prim_multadd_split :: "digit \<Rightarrow> digit \<Rightarrow> digit \<Rightarrow> digit \<Rightarrow> digit \<times> digit" where
  "prim_multadd_split x y a c =
     (let x0 = x AND 0xffffffff;
          x1 = drop_bit 32 x;
          y0 = y AND 0xffffffff;
          y1 = drop_bit 32 y;
          u = (x0 * y0) + (a AND 0xffffffff) + (c AND 0xffffffff);
          v = (x1 * y0) + (drop_bit 32 u) + (drop_bit 32 a) + (drop_bit 32 c);
          w = (x0 * y1) + (v AND 0xffffffff)
      in ((x1 * y1) + (drop_bit 32 v) + (drop_bit 32 w),
          (push_bit 32 w) + (u AND 0xffffffff)))"

text \<open>
  \<^verbatim>\<open>_divmod\<close>, \<^verbatim>\<open>__uint128_t\<close> branch; the pair is (\<^verbatim>\<open>*result\<close> = quotient, returned
  remainder).  The quotient is narrowed to a digit as the source's
  \<^verbatim>\<open>digit q = x / y\<close> does.  Division by \<^verbatim>\<open>y = 0\<close> is undefined in C++; the
  callers below test for it before they divide.
\<close>

definition prim_divmod :: "digit \<Rightarrow> digit \<Rightarrow> digit \<Rightarrow> digit \<times> digit" where
  "prim_divmod x_hi x_lo y =
     (let x = push_bit 64 (ucast x_hi :: wide) OR (ucast x_lo :: wide)
      in (ucast (x div ucast y), ucast (x mod ucast y)))"

text \<open>\<^verbatim>\<open>_addcarry\<close>, \<^verbatim>\<open>__uint128_t\<close> branch; the pair is (returned carry, \<^verbatim>\<open>*result\<close>).\<close>

definition prim_addcarry :: "digit \<Rightarrow> digit \<Rightarrow> digit \<Rightarrow> digit \<times> digit" where
  "prim_addcarry x y c =
     (let r = (ucast x :: wide) + (ucast y :: wide) + (ucast c :: wide)
      in (if drop_bit 64 r \<noteq> 0 then 1 else 0, ucast r))"

text \<open>\<^verbatim>\<open>_subborrow\<close>, \<^verbatim>\<open>__uint128_t\<close> branch; the pair is (returned borrow, \<^verbatim>\<open>*result\<close>).\<close>

definition prim_subborrow :: "digit \<Rightarrow> digit \<Rightarrow> digit \<Rightarrow> digit \<times> digit" where
  "prim_subborrow x y c =
     (let r = (ucast x :: wide) - (ucast y :: wide) - (ucast c :: wide)
      in (if drop_bit 64 r \<noteq> 0 then 1 else 0, ucast r))"

section \<open>The big unsigned integer\<close>

text \<open>The value a digit sequence stands for, and the canonical form of the spec.\<close>

fun val :: "uint_t \<Rightarrow> nat" where
  "val [] = 0"
| "val (d # ds) = unat d + 2 ^ 64 * val ds"

definition canonical :: "uint_t \<Rightarrow> bool" where
  "canonical xs = (xs = [] \<or> last xs \<noteq> 0)"

text \<open>The converting constructor \<^verbatim>\<open>uint_t(const T& value)\<close>: no digit for 0.\<close>

definition uint_of :: "digit \<Rightarrow> uint_t" where
  "uint_of v = (if v \<noteq> 0 then [v] else [])"

abbreviation uint_0 :: uint_t where "uint_0 \<equiv> uint_of 0"
abbreviation uint_1 :: uint_t where "uint_1 \<equiv> uint_of 1"

text \<open>\<^verbatim>\<open>operator unsigned long long\<close> and friends: \<^verbatim>\<open>size() ? front() : 0\<close>.\<close>

definition to_digit :: "uint_t \<Rightarrow> digit" where
  "to_digit xs = (case xs of [] \<Rightarrow> 0 | d # _ \<Rightarrow> d)"

text \<open>
  \<^verbatim>\<open>trim(mask)\<close>: mask the most significant digit to \<^verbatim>\<open>mask & 63\<close> bits when that
  is not 0, then drop every zero digit at the most significant end.
\<close>

definition strip_zeros :: "uint_t \<Rightarrow> uint_t" where
  "strip_zeros xs = rev (dropWhile (\<lambda>c. c = 0) (rev xs))"

definition trim :: "digit \<Rightarrow> uint_t \<Rightarrow> uint_t" where
  "trim msk xs =
     (let m = unat (msk AND 63);
          ys = (if m \<noteq> 0 \<and> xs \<noteq> []
                then butlast xs @ [last xs AND (push_bit m 1 - 1)] else xs)
      in strip_zeros ys)"

text \<open>\<^verbatim>\<open>bits()\<close>.\<close>

definition bits :: "uint_t \<Rightarrow> nat" where
  "bits xs = (if xs \<noteq> [] then prim_bits (last xs) + (length xs - 1) * 64 else 0)"

text \<open>
  \<^verbatim>\<open>bitwise_inv(result, lhs)\<close> on a fresh \<^verbatim>\<open>result\<close>, which is what
  \<^verbatim>\<open>operator~\<close> runs: the digits of \<^verbatim>\<open>lhs\<close> inverted, a digit \<^verbatim>\<open>~0\<close> when \<^verbatim>\<open>lhs\<close>
  has none, then \<^verbatim>\<open>trim(b ? b : 1)\<close>.
\<close>

definition bitwise_inv :: "uint_t \<Rightarrow> uint_t" where
  "bitwise_inv lhs =
     (let lhs_sz = length lhs;
          b = bits lhs;
          result_sz = (if lhs_sz \<noteq> 0 then lhs_sz else 1);
          result = map (\<lambda>d. NOT d) lhs @ replicate (result_sz - lhs_sz) (NOT 0)
      in trim (of_nat (if b \<noteq> 0 then b else 1)) result)"

text \<open>
  \<^verbatim>\<open>bitwise_inv(lhs)\<close> in place, which is what \<^verbatim>\<open>inv()\<close> runs: a digit 0 is
  appended when \<^verbatim>\<open>lhs\<close> has none, but the loop inverts the first \<^verbatim>\<open>lhs_sz\<close>
  digits only, with \<^verbatim>\<open>lhs_sz\<close> read before the append.
\<close>

definition bitwise_inv_inplace :: "uint_t \<Rightarrow> uint_t" where
  "bitwise_inv_inplace lhs =
     (let lhs_sz = length lhs;
          b = bits lhs;
          lhs1 = (if lhs_sz = 0 then lhs @ [0] else lhs);
          lhs2 = map (\<lambda>d. NOT d) (take lhs_sz lhs1) @ drop lhs_sz lhs1
      in trim (of_nat (if b \<noteq> 0 then b else 1)) lhs2)"

definition operator_not :: "uint_t \<Rightarrow> uint_t" where
  "operator_not x = bitwise_inv x"


section \<open>Errors\<close>

text \<open>
  The exceptions of the two headers, as values.  \<open>Undefined\<close> stands for
  behaviour C++ leaves undefined and that HOL would otherwise hide (a native
  division by a zero digit, a read outside a buffer); \<open>NotEmbedded\<close> marks the
  recursive Karatsuba kernels, which need both factors longer than
  \<^verbatim>\<open>karatsuba_cutoff = 16\<close> digits and are not part of this development.
\<close>

datatype error =
    DivisionByZero
  | NotADigit char nat
  | CannotConvert
  | InvalidCharacter char nat
  | InvalidChecksum
  | Undefined
  | NotEmbedded

section \<open>Comparison\<close>

fun compare_msd :: "digit list \<Rightarrow> digit list \<Rightarrow> int" where
  "compare_msd (x # xs) (y # ys) =
     (if x = y then compare_msd xs ys else if x > y then 1 else -1)"
| "compare_msd _ _ = 0"

definition compare :: "uint_t \<Rightarrow> uint_t \<Rightarrow> int" where
  "compare lhs rhs =
     (if length lhs > length rhs then 1
      else if length lhs < length rhs then -1
      else compare_msd (rev lhs) (rev rhs))"

section \<open>Division\<close>

text \<open>
  \<^verbatim>\<open>single_divmod\<close>: the sweep from the most significant digit down with
  \<^verbatim>\<open>_divmod(r, *rit_lhs, n, &*rit_q)\<close>.  \<open>single_sweep\<close> takes the digits
  most significant first and returns the quotient digits in that order.
\<close>

fun single_sweep :: "digit \<Rightarrow> digit \<Rightarrow> digit list \<Rightarrow> digit list \<times> digit" where
  "single_sweep n r [] = ([], r)"
| "single_sweep n r (x # xs) =
     (let (q, r1) = prim_divmod r x n;
          (qs, r2) = single_sweep n r1 xs
      in (q # qs, r2))"

definition single_divmod :: "uint_t \<Rightarrow> uint_t \<Rightarrow> error + (uint_t \<times> uint_t)" where
  "single_divmod lhs rhs =
     (let n = to_digit rhs in
      if n = 0 then Inl Undefined
      else (let (qs, r) = single_sweep n 0 (rev lhs)
            in Inr (trim 0 (rev qs), uint_of r)))"

text \<open>
  The fast paths of \<^verbatim>\<open>divmod\<close> (lines 1734-1765), in the order of the
  source; \<open>None\<close> when none of them returns, that is when \<^verbatim>\<open>knuth_divmod\<close> is
  called.  The shifts call \<^verbatim>\<open>divmod\<close> with the one-digit divisor 64, which
  always returns on one of these paths.
\<close>

definition divmod_fast :: "uint_t \<Rightarrow> uint_t \<Rightarrow> (error + (uint_t \<times> uint_t)) option" where
  "divmod_fast lhs rhs =
     (if rhs = [] then Some (Inl DivisionByZero)
      else if length lhs = 1 \<and> length rhs = 1 then
        (let a = hd lhs; b = hd rhs in
         if b = 0 then Some (Inl Undefined)
         else Some (Inr (uint_of (a div b), uint_of (a mod b))))
      else if compare rhs uint_1 = 0 then Some (Inr (lhs, uint_0))
      else (let compared = compare lhs rhs in
        if compared = 0 then Some (Inr (uint_1, uint_0))
        else if lhs = [] \<or> compared < 0 then Some (Inr (uint_0, lhs))
        else if length rhs = 1 then Some (single_divmod lhs rhs)
        else None))"

section \<open>Shifts and bitwise or\<close>

text \<open>
  \<^verbatim>\<open>divmod(shifts_q, shifts_r, rhs, uint_digit_bits)\<close> followed by the two
  \<^verbatim>\<open>static_cast<std::size_t>\<close>: the number of whole digits and of bits to shift.
\<close>

definition shift_amounts :: "uint_t \<Rightarrow> nat \<times> nat" where
  "shift_amounts rhs =
     (case divmod_fast rhs (uint_of 64) of
        Some (Inr (shifts_q, shifts_r)) \<Rightarrow> (unat (to_digit shifts_q), unat (to_digit shifts_r))
      | _ \<Rightarrow> (0, 0))"

fun lshift_digits :: "nat \<Rightarrow> digit \<Rightarrow> digit list \<Rightarrow> digit list" where
  "lshift_digits shift shifted [] = (if shifted \<noteq> 0 then [shifted] else [])"
| "lshift_digits shift shifted (x # xs) =
     (push_bit shift x OR shifted) # lshift_digits shift (drop_bit (64 - shift) x) xs"

text \<open>
  \<^verbatim>\<open>bitwise_lshift\<close>.  The in-place overload (prepend, shift the digits, append
  the bits shifted out) and the three-argument overload on a fresh result
  produce the same digits, so one definition serves \<^verbatim>\<open>operator<<\<close> and
  \<^verbatim>\<open>operator<<=\<close>.
\<close>

definition bitwise_lshift :: "uint_t \<Rightarrow> uint_t \<Rightarrow> uint_t" where
  "bitwise_lshift lhs rhs =
     (if rhs = [] then lhs
      else (let (shifts, shift) = shift_amounts rhs;
                body = (if shift \<noteq> 0 then lshift_digits shift 0 lhs else lhs)
            in trim 0 (replicate shifts 0 @ body)))"

text \<open>The right-shift loop runs from the most significant digit down.\<close>

fun rshift_digits :: "nat \<Rightarrow> digit \<Rightarrow> digit list \<Rightarrow> digit list" where
  "rshift_digits shift shifted [] = []"
| "rshift_digits shift shifted (x # xs) =
     (drop_bit shift x OR shifted) # rshift_digits shift (push_bit (64 - shift) x) xs"

text \<open>\<^verbatim>\<open>bitwise_rshift(lhs, rhs)\<close> in place, which \<^verbatim>\<open>operator>>=\<close> runs.\<close>

definition bitwise_rshift :: "uint_t \<Rightarrow> uint_t \<Rightarrow> uint_t" where
  "bitwise_rshift lhs rhs =
     (if rhs = [] then lhs
      else if compare rhs (uint_of (of_nat (length lhs * 64))) \<ge> 0 then uint_0
      else (let (shifts, shift) = shift_amounts rhs;
                lhs1 = drop shifts lhs
            in if shift \<noteq> 0
               then trim 0 (rev (rshift_digits shift 0 (rev lhs1)))
               else lhs1))"

fun or_digits :: "digit list \<Rightarrow> digit list \<Rightarrow> digit list" where
  "or_digits (x # xs) (y # ys) = (x OR y) # or_digits xs ys"
| "or_digits [] ys = ys"
| "or_digits xs [] = xs"

text \<open>\<^verbatim>\<open>bitwise_or(result, lhs, rhs)\<close> on a fresh result (\<^verbatim>\<open>operator|\<close>).\<close>

definition bitwise_or :: "uint_t \<Rightarrow> uint_t \<Rightarrow> uint_t" where
  "bitwise_or lhs rhs = trim 0 (or_digits lhs rhs)"

section \<open>Addition\<close>

text \<open>
  The carry chain of \<^verbatim>\<open>long_add\<close> with all three start indices 0: both
  operands while both last, then the longer one against 0, then a digit 1 when
  a carry is left.
\<close>

fun add_digits :: "digit \<Rightarrow> digit list \<Rightarrow> digit list \<Rightarrow> digit list" where
  "add_digits carry (x # xs) (y # ys) =
     (let (c, r) = prim_addcarry x y carry in r # add_digits c xs ys)"
| "add_digits carry (x # xs) [] =
     (let (c, r) = prim_addcarry x 0 carry in r # add_digits c xs [])"
| "add_digits carry [] (y # ys) =
     (let (c, r) = prim_addcarry 0 y carry in r # add_digits c [] ys)"
| "add_digits carry [] [] = (if carry \<noteq> 0 then [1] else [])"

definition long_add :: "uint_t \<Rightarrow> uint_t \<Rightarrow> uint_t" where
  "long_add lhs rhs = trim 0 (add_digits 0 lhs rhs)"

text \<open>\<^verbatim>\<open>add(result, lhs, rhs)\<close> on a fresh result (\<^verbatim>\<open>operator+\<close>).\<close>

definition add :: "uint_t \<Rightarrow> uint_t \<Rightarrow> uint_t" where
  "add lhs rhs =
     (if rhs = [] then lhs
      else if lhs = [] then rhs
      else long_add lhs rhs)"

section \<open>Multiplication\<close>

fun single_mult_digits :: "digit \<Rightarrow> digit \<Rightarrow> digit list \<Rightarrow> digit list" where
  "single_mult_digits n carry [] = [carry]"
| "single_mult_digits n carry (x # xs) =
     (let (c, r) = prim_multadd x n 0 carry in r # single_mult_digits n c xs)"

text \<open>
  \<^verbatim>\<open>single_mult\<close>: \<^verbatim>\<open>tmp\<close> has \<^verbatim>\<open>lhs_sz + 1\<close> zero digits; the last one receives
  the final carry when that is not 0 (and is 0 otherwise).
\<close>

definition single_mult :: "uint_t \<Rightarrow> uint_t \<Rightarrow> uint_t" where
  "single_mult lhs rhs = trim 0 (single_mult_digits (to_digit rhs) 0 lhs)"

text \<open>
  One row of the schoolbook product in \<^verbatim>\<open>long_mult\<close>: \<^verbatim>\<open>_multadd\<close> of every
  digit of \<^verbatim>\<open>rhs\<close> into \<^verbatim>\<open>tmp\<close> from position \<open>i\<close> on.  The result is the new
  \<^verbatim>\<open>tmp\<close> and the position \<^verbatim>\<open>_it_result\<close> ends at.
\<close>

fun mult_row :: "digit \<Rightarrow> digit \<Rightarrow> digit list \<Rightarrow> nat \<Rightarrow> digit list \<Rightarrow> digit list \<times> nat" where
  "mult_row m carry [] i tmp =
     (if carry \<noteq> 0 then (tmp[i := carry], i + 1) else (tmp, i))"
| "mult_row m carry (y # ys) i tmp =
     (let (c, r) = prim_multadd y m (tmp ! i) carry
      in mult_row m c ys (i + 1) (tmp[i := r]))"

fun mult_rows :: "digit list \<Rightarrow> digit list \<Rightarrow> nat \<Rightarrow> nat \<Rightarrow> digit list \<Rightarrow> digit list \<times> nat" where
  "mult_rows [] rhs i l tmp = (tmp, l)"
| "mult_rows (x # xs) rhs i l tmp =
     (if x \<noteq> 0
      then (let (tmp1, e) = mult_row x 0 rhs i tmp
            in mult_rows xs rhs (i + 1) (if l < e then e else l) tmp1)
      else mult_rows xs rhs (i + 1) l tmp)"

definition long_mult_ordered :: "uint_t \<Rightarrow> uint_t \<Rightarrow> uint_t" where
  "long_mult_ordered lhs rhs =
     (if length lhs = 1 then single_mult rhs lhs
      else (let (tmp, l) = mult_rows lhs rhs 0 0 (replicate (length lhs + length rhs) 0)
            in trim 0 (take l tmp)))"

text \<open>\<^verbatim>\<open>long_mult\<close>: the shorter factor is made \<^verbatim>\<open>lhs\<close> first.\<close>

definition long_mult :: "uint_t \<Rightarrow> uint_t \<Rightarrow> uint_t" where
  "long_mult lhs rhs =
     (if length lhs > length rhs then long_mult_ordered rhs lhs else long_mult_ordered lhs rhs)"

text \<open>
  \<^verbatim>\<open>karatsuba_mult\<close> up to its dispatch: after the swap that makes \<^verbatim>\<open>lhs\<close> the
  shorter factor, \<^verbatim>\<open>lhs_sz <= cutoff\<close> goes to \<^verbatim>\<open>long_mult\<close>.
\<close>

definition karatsuba_mult :: "uint_t \<Rightarrow> uint_t \<Rightarrow> nat \<Rightarrow> error + uint_t" where
  "karatsuba_mult lhs rhs cutoff =
     (let (l, r) = (if length lhs > length rhs then (rhs, lhs) else (lhs, rhs))
      in if length l \<le> cutoff then Inr (long_mult l r) else Inl NotEmbedded)"

text \<open>\<^verbatim>\<open>mult(result, lhs, rhs)\<close> (\<^verbatim>\<open>operator*\<close>), with \<^verbatim>\<open>karatsuba_cutoff = 1024 / 64\<close>.\<close>

definition mult :: "uint_t \<Rightarrow> uint_t \<Rightarrow> error + uint_t" where
  "mult lhs rhs =
     (if lhs = [] \<or> rhs = [] then Inr uint_0
      else if compare lhs uint_1 = 0 then Inr rhs
      else if compare rhs uint_1 = 0 then Inr lhs
      else karatsuba_mult lhs rhs 16)"


section \<open>Knuth's Algorithm D\<close>

text \<open>
  D3, the tightening of the estimate: \<^verbatim>\<open>while (mulhi > _r || (mulhi == _r && mullo > rlo))\<close>
  with \<^verbatim>\<open>(mulhi, mullo) = _mult(_q, wm2)\<close> recomputed for every test, \<^verbatim>\<open>--_q\<close>, and
  the \<^verbatim>\<open>break\<close> when \<^verbatim>\<open>_addcarry(_r, wm1, 0, &_r)\<close> carries.
\<close>

function knuth_adjust :: "digit \<Rightarrow> digit \<Rightarrow> digit \<Rightarrow> digit \<Rightarrow> digit \<Rightarrow> digit" where
  "knuth_adjust q r wm1 wm2 rlo =
     (let (mulhi, mullo) = prim_mult q wm2 in
      if mulhi > r \<or> (mulhi = r \<and> mullo > rlo)
      then (let q1 = q - 1;
                (c, r1) = prim_addcarry r wm1 0
            in if c \<noteq> 0 then q1 else knuth_adjust q1 r1 wm1 wm2 rlo)
      else q)"
  by pat_completeness auto
termination
proof (relation "measure (\<lambda>(q, r, wm1, wm2, rlo). unat q)")
  show "wf (measure (\<lambda>(q :: digit, r :: digit, wm1 :: digit, wm2 :: digit, rlo :: digit). unat q))"
    by simp
next
  fix q r wm1 wm2 rlo :: digit and x :: "digit \<times> digit" and mulhi mullo :: digit
    and q1 :: digit and y :: "digit \<times> digit" and c r1 :: digit
  assume x: "x = prim_mult q wm2" and m: "(mulhi, mullo) = x"
    and cond: "r < mulhi \<or> mulhi = r \<and> rlo < mullo" and q1: "q1 = q - 1"
  have "q \<noteq> 0"
  proof
    assume "q = 0"
    then have "prim_mult q wm2 = (0, 0)" by (simp add: prim_mult_def)
    with x m have "mulhi = 0" "mullo = 0" by simp_all
    with cond show False by simp
  qed
  then have "unat (q - 1) < unat q"
    by (metis unat_minus_one diff_less unat_eq_0 zero_less_one not_gr_zero)
  with q1 show "((q1, r1, wm1, wm2, rlo), (q, r, wm1, wm2, rlo))
      \<in> measure (\<lambda>(q, r, wm1, wm2, rlo). unat q)"
    by (simp only: in_measure prod.case)
qed

declare knuth_adjust.simps [simp del]

text \<open>
  D4, multiply and subtract, over the digits of \<^verbatim>\<open>w\<close> and the digits of \<^verbatim>\<open>v\<close>
  from position \<^verbatim>\<open>k\<close> on; the last step subtracts the borrow from the digit
  after them.  The result is the new digits and the final borrow.
\<close>

fun knuth_mulsub :: "digit \<Rightarrow> digit \<Rightarrow> digit \<Rightarrow> digit list \<Rightarrow> digit list \<Rightarrow> digit list \<times> digit" where
  "knuth_mulsub q mulhi carry [] (x # xs) =
     (let (c, r) = prim_subborrow x 0 carry in (r # xs, c))"
| "knuth_mulsub q mulhi carry (w # ws) (x # xs) =
     (let (mh, mullo) = prim_multadd w q 0 mulhi;
          (c, r) = prim_subborrow x mullo carry;
          (rest, cf) = knuth_mulsub q mh c ws xs
      in (r # rest, cf))"
| "knuth_mulsub q mulhi carry ws [] = ([], carry)"

text \<open>D6, add back.\<close>

fun knuth_addback :: "digit \<Rightarrow> digit list \<Rightarrow> digit list \<Rightarrow> digit list" where
  "knuth_addback carry [] (x # xs) =
     (let (c, r) = prim_addcarry x 0 carry in r # xs)"
| "knuth_addback carry (w # ws) (x # xs) =
     (let (c, r) = prim_addcarry x w carry in r # knuth_addback c ws xs)"
| "knuth_addback carry ws [] = []"

text \<open>
  One round of the loop D2 at position \<^verbatim>\<open>k\<close> (\<^verbatim>\<open>it_v_k = it_v_b + k\<close>), storing
  the quotient digit at index \<^verbatim>\<open>k\<close> of \<^verbatim>\<open>q\<close>.
\<close>

definition knuth_step ::
  "digit list \<Rightarrow> nat \<Rightarrow> digit \<Rightarrow> digit \<Rightarrow> nat \<Rightarrow> digit list \<times> digit list \<Rightarrow> digit list \<times> digit list" where
  "knuth_step w w_size wm1 wm2 k vq =
     (let (v, q) = vq;
          (q0, r0) = prim_divmod (v ! (k + w_size)) (v ! (k + w_size - 1)) wm1;
          rlo = v ! (k + w_size - 2);
          q1 = knuth_adjust q0 r0 wm1 wm2 rlo;
          (vs, carry) = knuth_mulsub q1 0 0 w (drop k v);
          (q2, vs2) = (if carry \<noteq> 0 then (q1 - 1, knuth_addback 0 w vs) else (q1, vs))
      in (take k v @ vs2, q[k := q2]))"

fun knuth_loop ::
  "digit list \<Rightarrow> nat \<Rightarrow> digit \<Rightarrow> digit \<Rightarrow> nat \<Rightarrow> digit list \<times> digit list \<Rightarrow> digit list \<times> digit list" where
  "knuth_loop w w_size wm1 wm2 0 vq = knuth_step w w_size wm1 wm2 0 vq"
| "knuth_loop w w_size wm1 wm2 (Suc k) vq =
     knuth_loop w w_size wm1 wm2 k (knuth_step w w_size wm1 wm2 (Suc k) vq)"

definition knuth_divmod :: "uint_t \<Rightarrow> uint_t \<Rightarrow> error + (uint_t \<times> uint_t)" where
  "knuth_divmod lhs rhs =
     (let w_size = length rhs;
          d = uint_of (of_nat (64 - prim_bits (last rhs)));
          v1 = bitwise_lshift lhs d;
          w1 = bitwise_lshift rhs d;
          v2 = (if last v1 \<ge> last w1 then v1 @ [0] else v1);
          v_size = length v2;
          v3 = v2 @ [0];
          k = v_size - w_size;
          q = replicate (k + 1) 0;
          wm1 = last w1;
          wm2 = last (butlast w1)
      in if wm1 = 0 then Inl Undefined
         else (let (v4, q1) = knuth_loop w1 w_size wm1 wm2 k (v3, q);
                   v5 = bitwise_rshift (take w_size v4) d
               in Inr (trim 0 q1, trim 0 v5)))"

text \<open>\<^verbatim>\<open>divmod\<close> (named \<open>divmod_uint\<close> here, \<open>divmod\<close> being a constant of HOL): the fast paths, else Algorithm D.\<close>

definition divmod_uint :: "uint_t \<Rightarrow> uint_t \<Rightarrow> error + (uint_t \<times> uint_t)" where
  "divmod_uint lhs rhs =
     (case divmod_fast lhs rhs of Some res \<Rightarrow> res | None \<Rightarrow> knuth_divmod lhs rhs)"


section \<open>Radix tables and raw bytes\<close>

text \<open>The tables \<^verbatim>\<open>_base_bits\<close> and \<^verbatim>\<open>_base_size\<close>, read at \<^verbatim>\<open>base - 1\<close>.\<close>

definition base_bits_table :: "nat list" where
  "base_bits_table = [
      0, 1, 0, 2, 0, 0, 0, 3, 0, 0, 0, 0, 0, 0, 0, 4,
      0, 0, 0, 0, 0, 0, 0, 0, 0, 0, 0, 0, 0, 0, 0, 5,
      0, 0, 0, 0, 0, 0, 0, 0, 0, 0, 0, 0, 0, 0, 0, 0,
      0, 0, 0, 0, 0, 0, 0, 0, 0, 0, 0, 0, 0, 0, 0, 6,
      0, 0, 0, 0, 0, 0, 0, 0, 0, 0, 0, 0, 0, 0, 0, 0,
      0, 0, 0, 0, 0, 0, 0, 0, 0, 0, 0, 0, 0, 0, 0, 0,
      0, 0, 0, 0, 0, 0, 0, 0, 0, 0, 0, 0, 0, 0, 0, 0,
      0, 0, 0, 0, 0, 0, 0, 0, 0, 0, 0, 0, 0, 0, 0, 7,
      0, 0, 0, 0, 0, 0, 0, 0, 0, 0, 0, 0, 0, 0, 0, 0,
      0, 0, 0, 0, 0, 0, 0, 0, 0, 0, 0, 0, 0, 0, 0, 0,
      0, 0, 0, 0, 0, 0, 0, 0, 0, 0, 0, 0, 0, 0, 0, 0,
      0, 0, 0, 0, 0, 0, 0, 0, 0, 0, 0, 0, 0, 0, 0, 0,
      0, 0, 0, 0, 0, 0, 0, 0, 0, 0, 0, 0, 0, 0, 0, 0,
      0, 0, 0, 0, 0, 0, 0, 0, 0, 0, 0, 0, 0, 0, 0, 0,
      0, 0, 0, 0, 0, 0, 0, 0, 0, 0, 0, 0, 0, 0, 0, 0,
      0, 0, 0, 0, 0, 0, 0, 0, 0, 0, 0, 0, 0, 0, 0, 8]"

definition base_size_table :: "nat list" where
  "base_size_table = [
      0, 64, 41, 32, 28, 25, 23, 22, 21, 20, 19, 18, 18, 17, 17, 16,
      16, 16, 16, 15, 15, 15, 15, 14, 14, 14, 14, 14, 14, 14, 13, 13,
      13, 13, 13, 13, 13, 13, 13, 13, 12, 12, 12, 12, 12, 12, 12, 12,
      12, 12, 12, 12, 12, 12, 12, 12, 11, 11, 11, 11, 11, 11, 11, 11,
      11, 11, 11, 11, 11, 11, 11, 11, 11, 11, 11, 11, 11, 11, 11, 11,
      11, 11, 11, 11, 10, 10, 10, 10, 10, 10, 10, 10, 10, 10, 10, 10,
      10, 10, 10, 10, 10, 10, 10, 10, 10, 10, 10, 10, 10, 10, 10, 10,
      10, 10, 10, 10, 10, 10, 10, 10, 10, 10, 10, 10, 10, 10, 10, 10,
      10, 10, 10, 10, 10, 10, 10, 10, 10, 10, 9, 9, 9, 9, 9, 9,
      9, 9, 9, 9, 9, 9, 9, 9, 9, 9, 9, 9, 9, 9, 9, 9,
      9, 9, 9, 9, 9, 9, 9, 9, 9, 9, 9, 9, 9, 9, 9, 9,
      9, 9, 9, 9, 9, 9, 9, 9, 9, 9, 9, 9, 9, 9, 9, 9,
      9, 9, 9, 9, 9, 9, 9, 9, 9, 9, 9, 9, 9, 9, 9, 9,
      9, 9, 9, 9, 9, 9, 9, 9, 9, 9, 9, 9, 9, 9, 9, 9,
      9, 9, 9, 9, 9, 9, 9, 9, 9, 9, 9, 9, 9, 9, 9, 9,
      9, 9, 9, 9, 9, 9, 9, 9, 9, 9, 9, 9, 9, 9, 9, 8]"

definition uint_base_bits :: "nat \<Rightarrow> nat" where
  "uint_base_bits b = base_bits_table ! (b - 1)"

definition uint_base_size :: "nat \<Rightarrow> nat" where
  "uint_base_size b = base_size_table ! (b - 1)"

text \<open>
  The static table \<^verbatim>\<open>uint_t::ord\<close>: the digits, the capital and the small
  letters, and \<^verbatim>\<open>0xff\<close> everywhere else.  Here and in \<^verbatim>\<open>BaseX\<close> below a table
  indexed by a \<^verbatim>\<open>char\<close> is read by the byte value 0..255 of the character;
  every alphabet and ignored set bundled with the library is 7-bit ASCII.
\<close>

definition uint_ord :: "char \<Rightarrow> digit" where
  "uint_ord ch =
     (let n = (of_char ch :: nat) in
      if 48 \<le> n \<and> n \<le> 57 then of_nat (n - 48)
      else if 65 \<le> n \<and> n \<le> 90 then of_nat (n - 55)
      else if 97 \<le> n \<and> n \<le> 122 then of_nat (n - 87)
      else 0xff)"

text \<open>
  A digit as its eight bytes in memory (little-endian host), and back.
\<close>

definition digit_bytes :: "digit \<Rightarrow> char list" where
  "digit_bytes d = map (\<lambda>i. char_of (unat (drop_bit (8 * i) d))) [0..<8]"

fun bytes_digit :: "char list \<Rightarrow> digit" where
  "bytes_digit [] = 0"
| "bytes_digit (b # bs) = of_nat (of_char b) OR push_bit 8 (bytes_digit bs)"

fun group_digits :: "nat \<Rightarrow> char list \<Rightarrow> digit list" where
  "group_digits 0 bs = []"
| "group_digits (Suc n) bs = bytes_digit (take 8 bs) # group_digits n (drop 8 bs)"

text \<open>
  \<^verbatim>\<open>strtouint\<close>.  For base 256 the bytes are copied behind \<^verbatim>\<open>value_padding\<close>
  zero bytes, the buffer is reversed, and the function returns: there is no
  \<^verbatim>\<open>trim()\<close> on this path.
\<close>

fun strtouint_bits :: "nat \<Rightarrow> uint_t \<Rightarrow> string \<Rightarrow> uint_t \<Rightarrow> error + uint_t" where
  "strtouint_bits b bb [] result = Inr result"
| "strtouint_bits b bb (ch # rest) result =
     (let d = uint_of (uint_ord ch) in
      if compare d (uint_of (of_nat b)) \<ge> 0 then Inl (NotADigit ch (length (ch # rest)))
      else strtouint_bits b bb rest (bitwise_or (bitwise_lshift result bb) d))"

fun strtouint_mult :: "nat \<Rightarrow> string \<Rightarrow> uint_t \<Rightarrow> error + uint_t" where
  "strtouint_mult b [] result = Inr result"
| "strtouint_mult b (ch # rest) result =
     (let d = uint_of (uint_ord ch) in
      if compare d (uint_of (of_nat b)) \<ge> 0 then Inl (NotADigit ch (length (ch # rest)))
      else (case mult result (uint_of (of_nat b)) of
              Inl e \<Rightarrow> Inl e
            | Inr p \<Rightarrow> strtouint_mult b rest (add p d)))"

definition strtouint :: "string \<Rightarrow> nat \<Rightarrow> error + uint_t" where
  "strtouint encoded alphabet_base =
     (if 2 \<le> alphabet_base \<and> alphabet_base \<le> 36 then
        (let alphabet_base_bits = uint_of (of_nat (uint_base_bits alphabet_base)) in
         if alphabet_base_bits \<noteq> [] then strtouint_bits alphabet_base alphabet_base_bits encoded []
         else strtouint_mult alphabet_base encoded [])
      else if encoded \<noteq> [] \<and> alphabet_base = 256 then
        (let encoded_size = length encoded;
             value_size0 = encoded_size div 8;
             value_padding0 = encoded_size mod 8;
             value_padding = (if value_padding0 \<noteq> 0 then 8 - value_padding0 else 0);
             value_size = (if value_padding0 \<noteq> 0 then value_size0 + 1 else value_size0);
             buffer = replicate value_padding (CHR 0x00) @ encoded
         in Inr (group_digits value_size (rev buffer)))
      else Inl CannotConvert)"

text \<open>
  \<^verbatim>\<open>str(256)\<close>, which \<^verbatim>\<open>raw()\<close> returns: the bytes of the digits, without the
  zero bytes at the most significant end, reversed; one zero byte for no digits.
\<close>

definition raw :: "uint_t \<Rightarrow> string" where
  "raw num =
     (if num \<noteq> []
      then rev (rev (dropWhile (\<lambda>c. c = CHR 0x00) (rev (concat (map digit_bytes num)))))
      else [CHR 0x00])"

section \<open>BaseX (base_x.hh)\<close>

text \<open>
  \<^verbatim>\<open>base_x.hh\<close> names the integer class \<^verbatim>\<open>uinteger_t\<close>; it is the class
  \<^verbatim>\<open>uint_t\<close> of \<^verbatim>\<open>uint_t.hh\<close> embedded above.
\<close>

record BaseX =
  chr :: "nat \<Rightarrow> char"
  ord :: "char \<Rightarrow> nat"
  base :: nat
  base_size :: nat
  base_bits :: nat
  block_size :: nat
  base_mask :: digit

abbreviation (input) IGNORE_CASE :: nat where "IGNORE_CASE \<equiv> 1"
abbreviation (input) BLOCK_PADDING :: nat where "BLOCK_PADDING \<equiv> 2"

text \<open>
  The source indexes \<^verbatim>\<open>_ord\<close> with a plain \<^verbatim>\<open>char\<close> converted to \<^verbatim>\<open>int\<close>, in the
  constructor (\<^verbatim>\<open>_ord[(int)ch]\<close>) and in \<^verbatim>\<open>decode\<close> and \<^verbatim>\<open>is_valid\<close>
  (\<^verbatim>\<open>ord(static_cast<int>(*encoded))\<close>), and both tables have 256 entries, of one
  byte each.  The embedding indexes \<open>ord\<close> by the character and \<open>chr\<close> by a
  natural number.  The two agree for the characters with codes 0 to 127 and
  for alphabets of 1 to 256 characters.  For a code from 128 on the index of
  the source is negative where \<^verbatim>\<open>char\<close> is signed and lies outside \<^verbatim>\<open>_ord\<close>, and
  an alphabet of more than 256 characters is written past the end of \<^verbatim>\<open>_chr\<close>;
  the embedding does not follow the source there.  Every alphabet and ignored
  set bundled with the library holds codes below 128 only, and the results on
  the checksum and on the constructor are stated for such codes (\<open>seven_bit\<close>
  below).
\<close>

definition seven_bit :: "char \<Rightarrow> bool" where
  "seven_bit ch \<longleftrightarrow> (of_char ch :: nat) < 128"

text \<open>
  The constructor.  The three loops run from the last index down to the first,
  so where two entries of a table are written twice the lower index is written
  last.  There is no test of the alphabet and no \<^verbatim>\<open>throw\<close>.
\<close>

fun ignored_loop :: "string \<Rightarrow> nat \<Rightarrow> (char \<Rightarrow> nat) \<Rightarrow> (char \<Rightarrow> nat)" where
  "ignored_loop ignored 0 od = od"
| "ignored_loop ignored (Suc j) od = ignored_loop ignored j (od(ignored ! j := 0))"

fun alphabet_loop ::
  "string \<Rightarrow> nat \<Rightarrow> nat \<Rightarrow> (nat \<Rightarrow> char) \<times> (char \<Rightarrow> nat) \<Rightarrow> (nat \<Rightarrow> char) \<times> (char \<Rightarrow> nat)" where
  "alphabet_loop alphabet flags 0 t = t"
| "alphabet_loop alphabet flags (Suc j) t =
     (let ch = alphabet ! j;
          n = (of_char ch :: nat);
          c1 = (fst t)(j := ch);
          o1 = (snd t)(ch := j);
          o2 = (if flags AND IGNORE_CASE \<noteq> 0
                then (if 65 \<le> n \<and> n \<le> 90 then o1(char_of (n - 65 + 97) := j)
                      else if 97 \<le> n \<and> n \<le> 122 then o1(char_of (n - 97 + 65) := j)
                      else o1)
                else o1)
      in alphabet_loop alphabet flags j (c1, o2))"

definition BaseX_new :: "string \<Rightarrow> string \<Rightarrow> nat \<Rightarrow> BaseX" where
  "BaseX_new alphabet ignored flags =
     (let b = length alphabet;
          bb = uint_base_bits b;
          t0 = (\<lambda>i. CHR 0x00, \<lambda>ch. 0xff);
          t1 = (fst t0, ignored_loop ignored (length ignored) (snd t0));
          t2 = alphabet_loop alphabet flags b t1
      in \<lparr> chr = fst t2, ord = snd t2, base = b,
           base_size = uint_base_size b, base_bits = bb,
           block_size = (if flags AND BLOCK_PADDING \<noteq> 0 then bb else 0),
           base_mask = of_nat b - 1 \<rparr>)"

subsection \<open>encode\<close>

text \<open>The pre-shift \<^verbatim>\<open>bp\<close> of \<^verbatim>\<open>encode\<close> (lines 96-101).\<close>

definition encode_bp :: "BaseX \<Rightarrow> uint_t \<Rightarrow> nat" where
  "encode_bp c num =
     (if block_size c \<noteq> 0
      then (let bp = ((bits num + 7) AND 0xf8) mod block_size c
            in if bp \<noteq> 0 then block_size c - bp else 0)
      else 0)"

text \<open>
  The digits of \<^verbatim>\<open>quotient\<close> read as half digits through
  \<^verbatim>\<open>reinterpret_cast<const half_digit*>\<close>.
\<close>

definition half_digits :: "uint_t \<Rightarrow> half_digit list" where
  "half_digits xs = concat (map (\<lambda>d. [ucast d, ucast (drop_bit 32 d)]) xs)"

text \<open>
  The \<^verbatim>\<open>do ... while (shift <= half_digit_bits)\<close> of the power-of-two branch.
  The state is the digits pushed so far (first pushed first), \<^verbatim>\<open>sum\<close> and
  \<^verbatim>\<open>shift\<close>.  The branch is entered with \<^verbatim>\<open>base_bits\<close> non-zero only; the
  test \<open>base_bits c \<noteq> 0\<close> makes the recursion total.
\<close>

function emit_window :: "BaseX \<Rightarrow> digit \<Rightarrow> nat list \<times> nat \<times> nat \<Rightarrow> nat list \<times> nat \<times> nat" where
  "emit_window c v (ds, csum, shift) =
     (let d = unat (drop_bit shift v AND base_mask c);
          shift1 = shift + base_bits c
      in if shift1 \<le> 32 \<and> base_bits c \<noteq> 0
         then emit_window c v (ds @ [d], csum XOR d, shift1)
         else (ds @ [d], csum XOR d, shift1))"
  by pat_completeness auto
termination
  by (relation "measure (\<lambda>(c, v, ds, csum, shift). 33 - shift)") auto

declare emit_window.simps [simp del]

text \<open>The loop over the half digits after the first.\<close>

fun encode_windows :: "BaseX \<Rightarrow> half_digit list \<Rightarrow> digit \<Rightarrow> nat list \<times> nat \<times> nat \<Rightarrow> digit \<times> nat list \<times> nat \<times> nat" where
  "encode_windows c [] v st = (v, st)"
| "encode_windows c (h # hs) v st =
     (let v1 = drop_bit 32 v OR push_bit 32 (ucast h);
          (ds, csum, shift) = emit_window c v1 st
      in encode_windows c hs v1 (ds, csum, shift - 32))"

text \<open>The flush \<^verbatim>\<open>while (v)\<close> after the last half digit.\<close>

function encode_flush :: "BaseX \<Rightarrow> digit \<Rightarrow> nat list \<times> nat \<Rightarrow> nat list \<times> nat" where
  "encode_flush c v (ds, csum) =
     (if v \<noteq> 0 \<and> base_bits c \<noteq> 0
      then (let d = unat (v AND base_mask c)
            in encode_flush c (drop_bit (base_bits c) v) (ds @ [d], csum XOR d))
      else (ds, csum))"
  by pat_completeness auto
termination
proof (relation "measure (\<lambda>(c, v, st). unat v)")
  show "wf (measure (\<lambda>(c :: BaseX, v :: digit, st :: nat list \<times> nat). unat v))" by simp
next
  fix c :: BaseX and v :: digit and ds :: "nat list" and csum x :: nat
  assume "v \<noteq> 0 \<and> base_bits c \<noteq> 0"
  then have v: "unat v \<noteq> 0" and b: "base_bits c \<noteq> 0" by (simp_all add: unat_eq_0)
  have "(2::nat) ^ 1 \<le> 2 ^ base_bits c" using b by (intro power_increasing) simp_all
  then have "unat v div 2 ^ base_bits c < unat v" using v by (intro div_less_dividend) simp_all
  moreover have "unat (drop_bit (base_bits c) v) = drop_bit (base_bits c) (unat v)"
    by (rule unat_drop_bit_eq)
  moreover have "drop_bit (base_bits c) (unat v) = unat v div 2 ^ base_bits c"
    by (rule drop_bit_eq_div)
  ultimately show "((c, drop_bit (base_bits c) v, ds @ [x], csum XOR x), (c, v, ds, csum))
      \<in> measure (\<lambda>(c, v, st). unat v)"
    by (simp only: in_measure prod.case)
qed

declare encode_flush.simps [simp del]

text \<open>
  The power-of-two branch up to the shrink: \<^verbatim>\<open>num_sz * 2\<close> half digits are
  read from \<^verbatim>\<open>quotient.data()\<close>; fewer digits in \<^verbatim>\<open>quotient\<close> is a read outside
  its buffer.  The result is the characters in the order pushed, and \<^verbatim>\<open>sum\<close>.
\<close>

definition encode_pow2 :: "BaseX \<Rightarrow> nat \<Rightarrow> uint_t \<Rightarrow> error + (string \<times> nat)" where
  "encode_pow2 c num_sz quot =
     (if length quot < num_sz then Inl Undefined
      else (let hs = take (num_sz * 2) (half_digits quot);
                v0 = push_bit 32 (ucast (hd hs));
                (v1, ds1, csum1, shift) = encode_windows c (tl hs) v0 ([], 0, 0);
                v2 = drop_bit (shift + 32) v1;
                (ds2, csum2) = encode_flush c v2 (ds1, csum1);
                result = map (chr c) ds2;
                s = chr c 0
            in Inr (rev (dropWhile (\<lambda>x. x = s) (rev result)), csum2)))"

text \<open>
  The general branch: \<^verbatim>\<open>do { r = quotient.divmod(uint_base); ... } while (quotient)\<close>.
  With a one-character alphabet the quot never changes and the loop does
  not end, so the loop is a partial function: \<open>None\<close> is no return.
\<close>

partial_function (option) encode_divmod ::
  "BaseX \<Rightarrow> uint_t \<Rightarrow> uint_t \<Rightarrow> string \<times> nat \<Rightarrow> (error + (string \<times> nat)) option" where
  "encode_divmod c uint_base quot st =
     (case divmod_uint quot uint_base of
        Inl e \<Rightarrow> Some (Inl e)
      | Inr r \<Rightarrow>
          (let d = unat (to_digit (snd r));
               st1 = (fst st @ [chr c d], snd st XOR d)
           in if fst r \<noteq> [] then encode_divmod c uint_base (fst r) st1
              else Some (Inr st1)))"

declare encode_divmod.simps [code]

text \<open>\<^verbatim>\<open>encode(result, num, checksum)\<close>; \<open>None\<close> is no return.\<close>

definition encode :: "BaseX \<Rightarrow> uint_t \<Rightarrow> bool \<Rightarrow> (error + string) option" where
  "encode c num checksum =
     (if num \<noteq> [] then
        (let bp = encode_bp c num;
             quot = bitwise_lshift num (uint_of (of_nat bp))
         in case (if base_bits c \<noteq> 0 then Some (encode_pow2 c (length num) quot)
                  else encode_divmod c (uint_of (of_nat (base c))) quot ([], 0)) of
              None \<Rightarrow> None
            | Some (Inl e) \<Rightarrow> Some (Inl e)
            | Some (Inr (pushed, csum)) \<Rightarrow>
                (let result = rev pushed in
                 if checksum
                 then (let sz = length result;
                           csum1 = csum XOR ((sz div base c) mod base c);
                           csum2 = csum1 XOR (sz mod base c)
                       in Some (Inr (result @ [chr c csum2])))
                 else Some (Inr result)))
      else Some (Inr [chr c 0]))"

text \<open>\<^verbatim>\<open>encode(bytes, size, checksum)\<close>: \<^verbatim>\<open>uinteger_t(bytes, size, 256)\<close> first.\<close>

definition encode_bytes :: "BaseX \<Rightarrow> string \<Rightarrow> bool \<Rightarrow> (error + string) option" where
  "encode_bytes c bytes checksum =
     (case strtouint bytes 256 of
        Inl e \<Rightarrow> Some (Inl e)
      | Inr num \<Rightarrow> encode c num checksum)"

subsection \<open>decode and is_valid\<close>

fun decode_pow2 :: "BaseX \<Rightarrow> string \<Rightarrow> nat \<Rightarrow> uint_t \<Rightarrow> error + (uint_t \<times> nat)" where
  "decode_pow2 c [] csum result = Inr (result, csum)"
| "decode_pow2 c (ch # rest) csum result =
     (let d = ord c ch;
          csum1 = csum XOR d
      in if d \<ge> base c then Inl (InvalidCharacter ch (length (ch # rest)))
         else decode_pow2 c rest csum1
                (bitwise_or (bitwise_lshift result (uint_of (of_nat (base_bits c))))
                            (uint_of (of_nat d))))"

fun decode_general :: "BaseX \<Rightarrow> uint_t \<Rightarrow> string \<Rightarrow> nat \<Rightarrow> uint_t \<Rightarrow> error + (uint_t \<times> nat)" where
  "decode_general c uint_base [] csum result = Inr (result, csum)"
| "decode_general c uint_base (ch # rest) csum result =
     (let d = ord c ch in
      if d \<ge> base c then Inl (InvalidCharacter ch (length (ch # rest)))
      else (case mult result uint_base of
              Inl e \<Rightarrow> Inl e
            | Inr p \<Rightarrow> decode_general c uint_base rest (csum XOR d) (add p (uint_of (of_nat d)))))"

text \<open>
  \<^verbatim>\<open>decode(result, encoded, encoded_size, checksum)\<close>.  With \<^verbatim>\<open>checksum\<close> and no
  character at all, \<^verbatim>\<open>--encoded_size\<close> wraps around and the loops read past the
  buffer.
\<close>

definition decode :: "BaseX \<Rightarrow> string \<Rightarrow> bool \<Rightarrow> error + uint_t" where
  "decode c encoded checksum =
     (if checksum \<and> encoded = [] then Inl Undefined
      else
        (let encoded_size = (if checksum then length encoded - 1 else length encoded);
             csum0 = (if checksum
                     then ((encoded_size div base c) mod base c) XOR (encoded_size mod base c)
                     else 0);
             bp = (if block_size c \<noteq> 0 then (encoded_size * block_size c) mod 8 else 0);
             payload = take encoded_size encoded
         in case (if base_bits c \<noteq> 0 then decode_pow2 c payload csum0 uint_0
                  else decode_general c (uint_of (of_nat (base c))) payload csum0 uint_0) of
              Inl e \<Rightarrow> Inl e
            | Inr (result, csum) \<Rightarrow>
                (let result1 = bitwise_rshift result (uint_of (of_nat bp)) in
                 if checksum
                 then (let ch = encoded ! encoded_size;
                           d = ord c ch
                       in if d \<ge> base c then Inl (InvalidCharacter ch 0)
                          else if csum XOR d \<noteq> 0 then Inl InvalidChecksum
                          else Inr result1)
                 else Inr result1)))"

text \<open>The overload that returns bytes: \<^verbatim>\<open>num.str(256)\<close> of the decoded number.\<close>

definition decode_bytes :: "BaseX \<Rightarrow> string \<Rightarrow> bool \<Rightarrow> error + string" where
  "decode_bytes c encoded checksum =
     (case decode c encoded checksum of Inl e \<Rightarrow> Inl e | Inr num \<Rightarrow> Inr (raw num))"

fun is_valid_loop :: "BaseX \<Rightarrow> string \<Rightarrow> nat \<Rightarrow> bool \<Rightarrow> bool" where
  "is_valid_loop c [] csum checksum = (\<not> (checksum \<and> csum \<noteq> 0))"
| "is_valid_loop c (ch # rest) csum checksum =
     (let d = ord c ch in
      if d \<ge> base c then False else is_valid_loop c rest (csum XOR d) checksum)"

text \<open>
  \<^verbatim>\<open>is_valid\<close>; \<^verbatim>\<open>sz = encoded_size - 1\<close> is a \<^verbatim>\<open>size_t\<close> and wraps to
  \<^verbatim>\<open>2^64 - 1\<close> for no character.
\<close>

definition is_valid :: "BaseX \<Rightarrow> string \<Rightarrow> bool \<Rightarrow> bool" where
  "is_valid c encoded checksum =
     (let sz = (if encoded = [] then 2 ^ 64 - 1 else length encoded - 1);
          csum0 = (if checksum then ((sz div base c) mod base c) XOR (sz mod base c) else 0)
      in is_valid_loop c encoded csum0 checksum)"

subsection \<open>The bundled codecs\<close>

definition rfc4648_ignored :: string where
  "rfc4648_ignored = [CHR ''='', CHR '' '', CHR 0x0A, CHR 0x0D, CHR 0x09]"

definition base2 :: BaseX where
  "base2 = BaseX_new ''01'' [] 0"
definition base8 :: BaseX where
  "base8 = BaseX_new ''01234567'' [] 0"
definition base11 :: BaseX where
  "base11 = BaseX_new ''0123456789a'' [] IGNORE_CASE"
definition base16 :: BaseX where
  "base16 = BaseX_new ''0123456789abcdef'' [] IGNORE_CASE"
definition base16_rfc4648 :: BaseX where
  "base16_rfc4648 = BaseX_new ''0123456789ABCDEF'' rfc4648_ignored IGNORE_CASE"
definition base32 :: BaseX where
  "base32 = BaseX_new ''ABCDEFGHIJKLMNOPQRSTUVWXYZ234567'' [] IGNORE_CASE"
definition base32_hex :: BaseX where
  "base32_hex = BaseX_new ''0123456789ABCDEFGHIJKLMNOPQRSTUV'' [] IGNORE_CASE"
definition base32_rfc4648 :: BaseX where
  "base32_rfc4648 = BaseX_new ''ABCDEFGHIJKLMNOPQRSTUVWXYZ234567'' rfc4648_ignored
     (IGNORE_CASE OR BLOCK_PADDING)"
definition base32_rfc4648hex :: BaseX where
  "base32_rfc4648hex = BaseX_new ''0123456789ABCDEFGHIJKLMNOPQRSTUV'' rfc4648_ignored
     (IGNORE_CASE OR BLOCK_PADDING)"
definition base32_crockford :: BaseX where
  "base32_crockford = BaseX_new ''0123456789ABCDEFGHJKMNPQRSTVWXYZ'' [] IGNORE_CASE"
definition base36 :: BaseX where
  "base36 = BaseX_new ''0123456789abcdefghijklmnopqrstuvwxyz'' [] IGNORE_CASE"
definition base58_gmp :: BaseX where
  "base58_gmp = BaseX_new ''0123456789ABCDEFGHIJKLMNOPQRSTUVWXYZabcdefghijklmnopqrstuv'' [] 0"
definition base58_bitcoin :: BaseX where
  "base58_bitcoin = BaseX_new ''123456789ABCDEFGHJKLMNPQRSTUVWXYZabcdefghijkmnopqrstuvwxyz'' [] 0"
definition base58_ripple :: BaseX where
  "base58_ripple = BaseX_new ''rpshnaf39wBUDNEGHJKLM4PQRST7VWXYZ2bcdeCg65jkm8oFqi1tuvAxyz'' [] 0"
definition base58_flickr :: BaseX where
  "base58_flickr = BaseX_new ''123456789abcdefghijkmnopqrstuvwxyzABCDEFGHJKLMNPQRSTUVWXYZ'' [] 0"
definition base62_inverted :: BaseX where
  "base62_inverted =
     BaseX_new ''0123456789abcdefghijklmnopqrstuvwxyzABCDEFGHIJKLMNOPQRSTUVWXYZ'' [] 0"
definition base62 :: BaseX where
  "base62 = BaseX_new ''0123456789ABCDEFGHIJKLMNOPQRSTUVWXYZabcdefghijklmnopqrstuvwxyz'' [] 0"
definition base64 :: BaseX where
  "base64 = BaseX_new ''ABCDEFGHIJKLMNOPQRSTUVWXYZabcdefghijklmnopqrstuvwxyz0123456789+/'' [] 0"
definition base64_url :: BaseX where
  "base64_url =
     BaseX_new ''ABCDEFGHIJKLMNOPQRSTUVWXYZabcdefghijklmnopqrstuvwxyz0123456789-_'' [] 0"
definition base64_rfc4648 :: BaseX where
  "base64_rfc4648 =
     BaseX_new ''ABCDEFGHIJKLMNOPQRSTUVWXYZabcdefghijklmnopqrstuvwxyz0123456789+/''
       rfc4648_ignored BLOCK_PADDING"
definition base64_rfc4648url :: BaseX where
  "base64_rfc4648url =
     BaseX_new ''ABCDEFGHIJKLMNOPQRSTUVWXYZabcdefghijklmnopqrstuvwxyz0123456789-_''
       rfc4648_ignored BLOCK_PADDING"
definition base66 :: BaseX where
  "base66 =
     BaseX_new ''ABCDEFGHIJKLMNOPQRSTUVWXYZabcdefghijklmnopqrstuvwxyz0123456789-_.!~'' [] 0"

section \<open>Notions for the statements\<close>

text \<open>
  The specification's formula for the pre-shift of a block-padding codec,
  for comparison with \<open>encode_bp\<close>:
  \<^verbatim>\<open>bp = block_size - (((bits(n) + 7) & ~7) mod block_size)\<close> when the inner
  expression is non-zero, else 0.
\<close>

definition spec_bp :: "nat \<Rightarrow> nat \<Rightarrow> nat" where
  "spec_bp bs b =
     (let inner = nat ((int b + 7) AND NOT 7) mod bs
      in if inner \<noteq> 0 then bs - inner else 0)"

text \<open>The exclusive or of a list of digits (what \<^verbatim>\<open>sum ^= d\<close> accumulates).\<close>

fun xor_list :: "nat list \<Rightarrow> nat" where
  "xor_list [] = 0"
| "xor_list (d # ds) = d XOR xor_list ds"

text \<open>
  The digits of a number in base \<open>b\<close>, least significant first; one digit 0
  for the number 0.
\<close>

function digits_lsd :: "nat \<Rightarrow> nat \<Rightarrow> nat list" where
  "digits_lsd b n = (if n < b \<or> b < 2 then [n] else n mod b # digits_lsd b (n div b))"
  by pat_completeness auto
termination
  by (relation "measure (\<lambda>(b, n). n)") (auto simp: not_less)

declare digits_lsd.simps [simp del]

text \<open>
  A codec whose tables agree: \<^verbatim>\<open>_ord\<close> inverts \<^verbatim>\<open>_chr\<close> on the digits, the
  entries of \<^verbatim>\<open>_chr\<close> that no digit uses decode as no digit, and the derived
  constants are the ones the constructor computes.
\<close>

definition well_formed :: "BaseX \<Rightarrow> bool" where
  "well_formed c \<longleftrightarrow>
     2 \<le> base c \<and> base c \<le> 256
     \<and> (\<forall>d < base c. ord c (chr c d) = d)
     \<and> (\<forall>d \<ge> base c. base c \<le> ord c (chr c d))
     \<and> base_mask c = of_nat (base c) - 1
     \<and> (base_bits c \<noteq> 0 \<longrightarrow> base c = 2 ^ base_bits c)
     \<and> (block_size c = 0 \<or> block_size c = base_bits c)"

text \<open>
  The characters whose \<^verbatim>\<open>_ord\<close> entry the constructor writes for the alphabet
  character \<open>a\<close>: the character and, with \<^verbatim>\<open>IGNORE_CASE\<close>, the same letter in
  the other case.  \<open>fold_case\<close> maps a capital letter to its small letter with
  \<^verbatim>\<open>IGNORE_CASE\<close> and is the identity otherwise.
\<close>

definition written :: "nat \<Rightarrow> char \<Rightarrow> char set" where
  "written flags a =
     insert a
       (if flags AND IGNORE_CASE \<noteq> 0
        then (if 65 \<le> (of_char a :: nat) \<and> (of_char a :: nat) \<le> 90
              then {char_of ((of_char a :: nat) - 65 + 97)}
              else if 97 \<le> (of_char a :: nat) \<and> (of_char a :: nat) \<le> 122
              then {char_of ((of_char a :: nat) - 97 + 65)}
              else {})
        else {})"

definition fold_case :: "nat \<Rightarrow> char \<Rightarrow> char" where
  "fold_case flags a =
     (if flags AND IGNORE_CASE \<noteq> 0 \<and> 65 \<le> (of_char a :: nat) \<and> (of_char a :: nat) \<le> 90
      then char_of ((of_char a :: nat) + 32) else a)"

text \<open>
  Numbers as digit lists, for the round trip: the value of a list of digits in
  base \<open>B\<close>, least significant first; the value of a list of half digits; and
  the \<open>k\<close> groups of \<open>b\<close> bits of \<open>M\<close> from bit \<open>sh\<close> on.
\<close>

fun lsd_val :: "nat \<Rightarrow> nat list \<Rightarrow> nat" where
  "lsd_val B [] = 0"
| "lsd_val B (d # ds) = d + B * lsd_val B ds"

fun hval :: "half_digit list \<Rightarrow> nat" where
  "hval [] = 0"
| "hval (h # hs) = unat h + 2 ^ 32 * hval hs"

definition bit_groups :: "nat \<Rightarrow> nat \<Rightarrow> nat \<Rightarrow> nat \<Rightarrow> nat list" where
  "bit_groups b M sh k = map (\<lambda>j. (M div 2 ^ (sh + j * b)) mod 2 ^ b) [0..<k]"

text \<open>The value of a list of bytes, least significant first.\<close>

fun bval :: "char list \<Rightarrow> nat" where
  "bval [] = 0"
| "bval (b # bs) = of_char b + 256 * bval bs"

text \<open>The bundled codecs constructed without \<^verbatim>\<open>BLOCK_PADDING\<close>.\<close>

definition unpadded_codecs :: "BaseX list" where
  "unpadded_codecs =
     [base2, base8, base11, base16, base16_rfc4648, base32, base32_hex, base32_crockford,
      base36, base58_gmp, base58_bitcoin, base58_ripple, base58_flickr, base62_inverted,
      base62, base64, base64_url, base66]"

section \<open>Words as numbers\<close>

lemma unat_ucast_up [simp]: "unat (ucast (x :: digit) :: wide) = unat x"
proof -
  have "unat x < 2 ^ 64" using unsigned_less [of x] by simp
  then have "unat x < 2 ^ 128" by simp
  then show ?thesis by (simp add: unsigned_ucast_eq take_bit_nat_eq_self)
qed

lemma unat_ucast_down: "unat (ucast (r :: wide) :: digit) = unat r mod 2 ^ 64"
  by (simp add: unsigned_ucast_eq take_bit_eq_mod)

lemma unat_drop_bit_div: "unat (drop_bit n (w :: 'a::len word)) = unat w div 2 ^ n"
  by (subst unat_drop_bit_eq) (rule drop_bit_eq_div)

lemma unat_wide_hi: "unat (ucast (drop_bit 64 (r :: wide)) :: digit) = unat r div 2 ^ 64"
proof -
  have "unat r < 2 ^ 128" using unsigned_less [of r] by simp
  then have "unat r div 2 ^ 64 < 2 ^ 64" by (simp add: less_mult_imp_div_less)
  then show ?thesis
    by (simp add: unsigned_ucast_eq take_bit_eq_mod unat_drop_bit_div)
qed

lemma digit_less: "unat (x :: digit) < 2 ^ 64"
  using unsigned_less [of x] by simp

text \<open>The \<^verbatim>\<open>__uint128_t\<close> branch of \<^verbatim>\<open>_multadd\<close> is exact.\<close>

lemma prim_multadd_value:
  assumes "prim_multadd x y a c = (hi, lo)"
  shows "unat hi * 2 ^ 64 + unat lo = unat x * unat y + unat a + unat c"
proof -
  define r :: wide where "r = ucast x * ucast y + ucast a + ucast c"
  have "unat x * unat y \<le> (2 ^ 64 - 1) * (2 ^ 64 - 1)"
    using digit_less [of x] digit_less [of y] by (intro mult_mono) simp_all
  then have lt: "unat x * unat y + unat a + unat c < 2 ^ 128"
    using digit_less [of a] digit_less [of c] by simp
  have ur: "unat r = unat x * unat y + unat a + unat c"
    unfolding r_def using lt by (simp add: unat_word_ariths)
  have hl: "hi = ucast (drop_bit 64 r)" "lo = ucast r"
    using assms by (simp_all add: prim_multadd_def r_def Let_def)
  have "unat hi = unat r div 2 ^ 64"
    unfolding hl by (rule unat_wide_hi)
  moreover have "unat lo = unat r mod 2 ^ 64"
    unfolding hl by (rule unat_ucast_down)
  ultimately show ?thesis using ur by simp
qed

subsection \<open>Values of digit sequences\<close>

lemma val_append: "val (xs @ ys) = val xs + 2 ^ (64 * length xs) * val ys"
  by (induction xs) (simp_all add: power_add algebra_simps)

lemma val_snoc_zero [simp]: "val (xs @ [0]) = val xs"
  by (simp add: val_append)

lemma val_less: "val xs < 2 ^ (64 * length xs)"
proof (induction xs)
  case Nil
  show ?case by simp
next
  case (Cons x xs)
  have "unat x < 2 ^ 64" by (rule digit_less)
  moreover have "val xs + 1 \<le> 2 ^ (64 * length xs)" using Cons by simp
  then have "2 ^ 64 * (val xs + 1) \<le> 2 ^ 64 * 2 ^ (64 * length xs)"
    by (rule mult_le_mono2)
  ultimately show ?case by (simp add: power_add)
qed

lemma val_replicate_zero [simp]: "val (replicate n 0) = 0"
  by (induction n) simp_all

lemma val_eq_0_iff: "val xs = 0 \<longleftrightarrow> (\<forall>x \<in> set xs. x = 0)"
  by (induction xs) (auto simp: unat_eq_0)

lemma strip_zeros_snoc:
  "strip_zeros (xs @ [x]) = (if x = 0 then strip_zeros xs else xs @ [x])"
  by (simp add: strip_zeros_def)

lemma strip_zeros_Nil [simp]: "strip_zeros [] = []"
  by (simp add: strip_zeros_def)

lemma val_strip_zeros [simp]: "val (strip_zeros xs) = val xs"
  by (induction xs rule: rev_induct) (simp_all add: strip_zeros_snoc)

lemma canonical_strip_zeros [simp]: "canonical (strip_zeros xs)"
  by (induction xs rule: rev_induct) (simp_all add: strip_zeros_snoc canonical_def)

lemma strip_zeros_canonical: "canonical xs \<Longrightarrow> strip_zeros xs = xs"
  by (cases xs rule: rev_cases) (simp_all add: strip_zeros_snoc canonical_def)

lemma length_strip_zeros: "length (strip_zeros xs) \<le> length xs"
  by (induction xs rule: rev_induct) (simp_all add: strip_zeros_snoc le_SucI)

lemma trim_0 [simp]: "trim 0 xs = strip_zeros xs"
  by (simp add: trim_def)

lemma canonical_Nil [simp]: "canonical []"
  by (simp add: canonical_def)

lemma canonical_uint_of [simp]: "canonical (uint_of v)"
  by (simp add: uint_of_def canonical_def)

lemma val_uint_of [simp]: "val (uint_of v) = unat v"
  by (simp add: uint_of_def)

lemma canonical_val_ge:
  assumes "canonical xs" "xs \<noteq> []"
  shows "2 ^ (64 * (length xs - 1)) \<le> val xs"
proof -
  obtain ys y where xs: "xs = ys @ [y]" using assms(2) by (cases xs rule: rev_cases) auto
  with assms(1) have "y \<noteq> 0" by (simp add: canonical_def)
  then have "unat y \<noteq> 0" by (simp add: unat_eq_0)
  then have "1 \<le> unat y" by simp
  then have "(2::nat) ^ (64 * length ys) \<le> 2 ^ (64 * length ys) * unat y"
    by simp
  then have "(2::nat) ^ (64 * length ys) \<le> val ys + 2 ^ (64 * length ys) * unat y"
    by (rule trans_le_add2)
  then show ?thesis by (simp add: xs val_append)
qed

lemma canonical_val_0: "canonical xs \<Longrightarrow> val xs = 0 \<Longrightarrow> xs = []"
  using canonical_val_ge [of xs] by (cases "xs = []") auto

lemma val_inj_same_length:
  "length xs = length ys \<Longrightarrow> val xs = val ys \<Longrightarrow> xs = ys"
proof (induction xs ys rule: list_induct2)
  case Nil
  show ?case by simp
next
  case (Cons x xs y ys)
  have "(unat x + 2 ^ 64 * val xs) mod 2 ^ 64 = (unat y + 2 ^ 64 * val ys) mod 2 ^ 64"
    using Cons.prems by simp
  then have "unat x = unat y" using digit_less [of x] digit_less [of y] by simp
  then have "x = y" by (simp add: word_unat_eq_iff)
  moreover have "val xs = val ys" using Cons.prems \<open>unat x = unat y\<close> by simp
  ultimately show ?case using Cons.IH by simp
qed

lemma canonical_val_inj:
  assumes "canonical xs" "canonical ys" "val xs = val ys"
  shows "xs = ys"
proof (cases "xs = [] \<or> ys = []")
  case True
  then show ?thesis using assms canonical_val_0 [of xs] canonical_val_0 [of ys] by auto
next
  case False
  have le: "length as \<le> length bs" if "canonical as" "as \<noteq> []" "val as = val bs" for as bs
  proof -
    have "(2::nat) ^ (64 * (length as - 1)) < 2 ^ (64 * length bs)"
      using canonical_val_ge [OF that(1,2)] val_less [of bs] that(3) by linarith
    then have "64 * (length as - 1) < 64 * length bs"
      by (simp only: power_strict_increasing_iff [of "2::nat"] one_less_numeral_iff semiring_norm)
    then show ?thesis by simp
  qed
  from False assms le [of xs ys] le [of ys xs] have "length xs = length ys" by simp
  then show ?thesis using assms(3) by (rule val_inj_same_length)
qed

subsection \<open>Division by one digit\<close>

lemma unat_wide_concat:
  "unat (push_bit 64 (ucast (hi :: digit) :: wide) OR ucast (lo :: digit)) = unat hi * 2 ^ 64 + unat lo"
proof -
  have disj: "\<not> bit (push_bit 64 (ucast hi :: wide)) n \<or> \<not> bit (ucast lo :: wide) n" for n
    by (auto simp: bit_push_bit_iff bit_ucast_iff dest: bit_imp_le_length)
  have eq: "push_bit 64 (ucast hi :: wide) OR ucast lo = push_bit 64 (ucast hi) + ucast lo"
    by (rule disjunctive_add [symmetric]) (rule disj)
  have "unat hi * 2 ^ 64 < 2 ^ 64 * 2 ^ 64" using digit_less [of hi] by simp
  then have "take_bit 128 (unat hi * 2 ^ 64) = unat hi * 2 ^ 64"
    by (simp add: take_bit_nat_eq_self)
  moreover have "unat (push_bit 64 (ucast hi :: wide)) = take_bit 128 (push_bit 64 (unat hi))"
    by (subst unsigned_push_bit_eq) simp
  ultimately have hi: "unat (push_bit 64 (ucast hi :: wide)) = unat hi * 2 ^ 64"
    by (simp add: push_bit_eq_mult)
  have "unat hi * 2 ^ 64 + unat lo < 2 ^ 128"
    using digit_less [of hi] digit_less [of lo] by simp
  then show ?thesis
    unfolding eq by (simp add: unat_word_ariths hi)
qed

lemma prim_divmod_exact:
  assumes "unat hi < unat y" and "prim_divmod hi lo y = (q, r)"
  shows "unat q = (unat hi * 2 ^ 64 + unat lo) div unat y"
    and "unat r = (unat hi * 2 ^ 64 + unat lo) mod unat y"
proof -
  define x :: wide where "x = push_bit 64 (ucast hi) OR ucast lo"
  define X where "X = unat hi * 2 ^ 64 + unat lo"
  have ux: "unat x = X" unfolding x_def X_def by (rule unat_wide_concat)
  have q: "q = ucast (x div ucast y)" and r: "r = ucast (x mod ucast y)"
    using assms(2) by (simp_all add: prim_divmod_def x_def Let_def)
  have "X < (unat hi + 1) * 2 ^ 64" unfolding X_def using digit_less [of lo] by simp
  also have "\<dots> \<le> unat y * 2 ^ 64" using assms(1) by (intro mult_le_mono1) simp
  finally have "X div unat y < 2 ^ 64"
    using assms(1) by (simp add: less_mult_imp_div_less mult.commute)
  moreover have "X mod unat y < unat y" using assms(1) by simp
  then have "X mod unat y < 2 ^ 64" using digit_less [of y] by (rule less_trans)
  ultimately show "unat q = X div unat y" "unat r = X mod unat y"
    unfolding q r by (simp_all add: unat_ucast_down unat_div unat_mod ux)
qed

lemma single_sweep_exact:
  assumes "unat r < unat n" and "single_sweep n r xs = (qs, r')"
  shows "length qs = length xs
    \<and> val (rev qs) * unat n + unat r' = unat r * 2 ^ (64 * length xs) + val (rev xs)
    \<and> unat r' < unat n"
  using assms
proof (induction xs arbitrary: r qs r')
  case Nil
  then show ?case by simp
next
  case (Cons x xs)
  obtain q r1 where d: "prim_divmod r x n = (q, r1)" by (cases "prim_divmod r x n")
  obtain qs1 r2 where s: "single_sweep n r1 xs = (qs1, r2)" by (cases "single_sweep n r1 xs")
  from Cons.prems(2) d s have qs: "qs = q # qs1" and r': "r' = r2" by simp_all
  define X where "X = unat r * 2 ^ 64 + unat x"
  have q: "unat q = X div unat n" and r1: "unat r1 = X mod unat n"
    using prim_divmod_exact [OF Cons.prems(1) d] by (simp_all add: X_def)
  have "unat r1 < unat n" using Cons.prems(1) by (simp add: r1)
  from Cons.IH [OF this s]
  have len: "length qs1 = length xs"
    and eq: "val (rev qs1) * unat n + unat r2 = unat r1 * 2 ^ (64 * length xs) + val (rev xs)"
    and lt: "unat r2 < unat n" by simp_all
  have X: "X = unat q * unat n + unat r1" by (simp add: q r1)
  define P :: nat where "P = 2 ^ (64 * length xs)"
  have "val (rev qs) * unat n + unat r'
      = (val (rev qs1) * unat n + unat r2) + P * (unat q * unat n)"
    by (simp add: qs r' val_append len P_def algebra_simps)
  also have "\<dots> = (unat r1 * P + val (rev xs)) + P * (unat q * unat n)"
    by (simp only: eq P_def)
  also have "\<dots> = X * P + val (rev xs)"
    by (simp add: X algebra_simps)
  also have "\<dots> = unat r * 2 ^ (64 * length (x # xs)) + val (rev (x # xs))"
    by (simp add: X_def P_def val_append power_add algebra_simps)
  finally show ?case using len lt by (simp add: qs r')
qed

lemma single_divmod_exact:
  assumes "b \<noteq> 0"
  shows "\<exists>q r. single_divmod a [b] = Inr (q, uint_of r) \<and> canonical q
     \<and> val q = val a div unat b \<and> unat r = val a mod unat b"
proof -
  obtain qs r where s: "single_sweep b 0 (rev a) = (qs, r)" by (cases "single_sweep b 0 (rev a)")
  have pos: "unat (0 :: digit) < unat b" using assms by (simp add: unat_gt_0)
  from single_sweep_exact [OF pos s]
  have eq: "val (rev qs) * unat b + unat r = val a" and lt: "unat r < unat b" by simp_all
  have "val a div unat b = val (rev qs)" "val a mod unat b = unat r"
    using lt by (simp_all add: eq [symmetric])
  then show ?thesis using assms s
    by (intro exI [of _ "strip_zeros (rev qs)"] exI [of _ r])
       (simp add: single_divmod_def to_digit_def)
qed

lemma compare_single_one: "compare [b] uint_1 = 0 \<longleftrightarrow> b = 1"
  by (simp add: compare_def uint_of_def)

lemma divmod_uint_single:
  assumes "b \<noteq> 0" and "b \<noteq> 1 \<or> canonical a"
  shows "\<exists>q r. divmod_uint a [b] = Inr (q, uint_of r) \<and> canonical q
     \<and> val q = val a div unat b \<and> unat r = val a mod unat b"
proof -
  consider (single) x where "a = [x]" | (one) "length a \<noteq> 1" "b = 1"
    | (empty) "a = []" "b \<noteq> 1" | (long) "2 \<le> length a" "b \<noteq> 1"
    by (cases a; cases "tl a") (auto simp: Suc_le_eq)
  then show ?thesis
  proof cases
    case single
    then show ?thesis using assms(1)
      by (intro exI [of _ "uint_of (x div b)"] exI [of _ "x mod b"])
         (simp add: divmod_uint_def divmod_fast_def unat_div unat_mod)
  next
    case one
    with assms(2) have "canonical a" by simp
    then show ?thesis using one
      by (auto simp: divmod_uint_def divmod_fast_def compare_single_one intro!: exI [of _ 0])
  next
    case empty
    then show ?thesis
      by (auto simp: divmod_uint_def divmod_fast_def compare_single_one compare_def uint_of_def
          intro!: exI [of _ 0])
  next
    case long
    then have "compare a [b] = 1" "a \<noteq> []" "length a \<noteq> 1" by (auto simp: compare_def)
    then show ?thesis using long single_divmod_exact [OF assms(1), of a]
      by (auto simp: divmod_uint_def divmod_fast_def compare_single_one)
  qed
qed

subsection \<open>Shifts\<close>

lemma shift_amounts_small:
  assumes "k \<noteq> 0" "unat k < 64"
  shows "shift_amounts [k] = (0, unat k)"
proof -
  have "k div 64 = 0" "k mod 64 = k"
    using assms(2) by (simp_all add: word_unat_eq_iff unat_div unat_mod)
  then show ?thesis using assms(1)
    by (simp add: shift_amounts_def divmod_fast_def uint_of_def to_digit_def)
qed

lemma unat_push_bit_or:
  fixes x c :: digit
  assumes "s < 64" "unat c < 2 ^ s"
  shows "unat (push_bit s x OR c) = (unat x * 2 ^ s) mod 2 ^ 64 + unat c"
proof -
  have "unat (take_bit s c) = unat c"
    using assms(2) by (simp add: unsigned_take_bit_eq take_bit_nat_eq_self)
  then have tc: "take_bit s c = c" by (simp add: word_unat_eq_iff)
  have c: "\<not> bit c n" if "s \<le> n" for n
  proof
    assume "bit c n"
    then have "bit (take_bit s c) n" by (simp add: tc)
    then show False using that by (simp add: bit_take_bit_iff)
  qed
  have disj: "\<not> bit (push_bit s x) n \<or> \<not> bit c n" for n
    using c [of n] by (auto simp: bit_push_bit_iff)
  have eq: "push_bit s x OR c = push_bit s x + c"
    by (rule disjunctive_add [symmetric]) (rule disj)
  have p: "unat (push_bit s x) = (unat x * 2 ^ s) mod 2 ^ 64"
    by (subst unsigned_push_bit_eq) (simp add: push_bit_eq_mult take_bit_eq_mod)
  have "(2::nat) ^ 64 = 2 ^ s * 2 ^ (64 - s)" using assms(1) by (simp flip: power_add)
  then have "(unat x * 2 ^ s) mod 2 ^ 64 = 2 ^ s * (unat x mod 2 ^ (64 - s))"
    by (simp add: mult.commute mult_mod_right)
  moreover have "unat x mod 2 ^ (64 - s) + 1 \<le> 2 ^ (64 - s)"
    by (simp add: Suc_leI)
  then have "2 ^ s * (unat x mod 2 ^ (64 - s) + 1) \<le> 2 ^ s * 2 ^ (64 - s)"
    by (rule mult_le_mono2)
  ultimately have "(unat x * 2 ^ s) mod 2 ^ 64 + unat c < 2 ^ 64"
    using assms(2) \<open>(2::nat) ^ 64 = 2 ^ s * 2 ^ (64 - s)\<close> by simp
  then show ?thesis unfolding eq by (simp add: unat_word_ariths p)
qed

lemma lshift_digits_val:
  assumes "0 < s" "s < 64" "unat carry < 2 ^ s"
  shows "val (lshift_digits s carry xs) = val xs * 2 ^ s + unat carry"
  using assms(3)
proof (induction xs arbitrary: carry)
  case Nil
  then show ?case by (simp add: unat_eq_0)
next
  case (Cons x xs)
  have split: "(2::nat) ^ 64 = 2 ^ s * 2 ^ (64 - s)" using assms(2) by (simp flip: power_add)
  have "unat x < 2 ^ s * 2 ^ (64 - s)" using digit_less [of x] split by simp
  then have c': "unat (drop_bit (64 - s) x) < 2 ^ s"
    by (simp add: unat_drop_bit_div less_mult_imp_div_less mult.commute)
  have low: "(unat x * 2 ^ s) mod 2 ^ 64 = 2 ^ s * (unat x mod 2 ^ (64 - s))"
    using split by (simp add: mult.commute mult_mod_right)
  define A where "A = 2 ^ s * (unat x mod 2 ^ (64 - s))"
  define Q where "Q = unat x div 2 ^ (64 - s)"
  have key: "unat x * 2 ^ s = A + 2 ^ 64 * Q"
  proof -
    define P :: nat where "P = 2 ^ (64 - s)"
    have dist: "(m + P * d) * 2 ^ s = 2 ^ s * m + (2 ^ s * P) * d" for m d :: nat
      by (simp add: algebra_simps)
    have "unat x * 2 ^ s = (unat x mod P + P * (unat x div P)) * 2 ^ s"
      by (simp only: mod_mult_div_eq)
    also have "\<dots> = 2 ^ s * (unat x mod P) + (2 ^ s * P) * (unat x div P)"
      by (rule dist)
    finally show ?thesis using split by (simp add: P_def A_def Q_def)
  qed
  have d1: "unat (push_bit s x OR carry) = A + unat carry"
    using unat_push_bit_or [OF assms(2) Cons.prems] low by (simp add: A_def)
  have tail: "val (lshift_digits s (drop_bit (64 - s) x) xs) = val xs * 2 ^ s + Q"
    using Cons.IH [OF c'] by (simp add: unat_drop_bit_div Q_def)
  have "val (lshift_digits s carry (x # xs)) = (A + unat carry) + 2 ^ 64 * (val xs * 2 ^ s + Q)"
    by (simp add: d1 tail)
  also have "\<dots> = (A + 2 ^ 64 * Q) + 2 ^ 64 * (val xs * 2 ^ s) + unat carry"
    by (simp add: algebra_simps)
  also have "\<dots> = unat x * 2 ^ s + 2 ^ 64 * (val xs * 2 ^ s) + unat carry"
    by (simp only: key)
  also have "\<dots> = val (x # xs) * 2 ^ s + unat carry"
    by (simp add: algebra_simps)
  finally show ?case .
qed

lemma bitwise_lshift_small:
  assumes "unat k < 64"
  shows "val (bitwise_lshift xs (uint_of k)) = val xs * 2 ^ unat k"
    and "canonical xs \<Longrightarrow> canonical (bitwise_lshift xs (uint_of k))"
proof -
  show "val (bitwise_lshift xs (uint_of k)) = val xs * 2 ^ unat k"
  proof (cases "k = 0")
    case True
    then show ?thesis by (simp add: bitwise_lshift_def uint_of_def)
  next
    case False
    then have "0 < unat k" by (simp add: unat_gt_0)
    then show ?thesis using False assms
      by (simp add: bitwise_lshift_def uint_of_def shift_amounts_small lshift_digits_val)
  qed
  show "canonical (bitwise_lshift xs (uint_of k))" if "canonical xs"
    using that by (cases "k = 0") (simp_all add: bitwise_lshift_def uint_of_def split: prod.splits)
qed



subsection \<open>Exclusive or\<close>

lemma xor_list_append [simp]: "xor_list (xs @ ys) = xor_list xs XOR xor_list ys"
  by (induction xs) (simp_all add: ac_simps)

lemma xor_list_rev [simp]: "xor_list (rev xs) = xor_list xs"
  by (induction xs) (simp_all add: ac_simps)


lemma xor_nat_cancel [simp]: "(a :: nat) XOR (a XOR b) = b"
  by (simp flip: xor.assoc)


subsection \<open>is\_valid\<close>


subsection \<open>The digits encode pushes\<close>

lemma digits_lsd_less: "2 \<le> b \<Longrightarrow> d \<in> set (digits_lsd b n) \<Longrightarrow> d < b"
proof (induction b n rule: digits_lsd.induct)
  case (1 b n)
  show ?case
  proof (cases "n < b")
    case True
    with "1.prems" show ?thesis by (subst (asm) digits_lsd.simps) simp
  next
    case False
    with "1.prems" have "d = n mod b \<or> d \<in> set (digits_lsd b (n div b))"
      by (subst (asm) digits_lsd.simps) (simp add: not_less)
    then show ?thesis using "1.IH" "1.prems"(1) False by auto
  qed
qed








subsection \<open>The general branch of encode\<close>

lemma to_digit_uint_of [simp]: "to_digit (uint_of r) = r"
  by (simp add: to_digit_def uint_of_def)

lemma encode_divmod_result:
  assumes "2 \<le> unat b"
  shows "encode_divmod c [b] q st =
     Some (Inr (fst st @ map (chr c) (digits_lsd (unat b) (val q)),
                snd st XOR xor_list (digits_lsd (unat b) (val q))))"
proof (induction "val q" arbitrary: q st rule: less_induct)
  case less
  have b0: "b \<noteq> 0" and b1: "b \<noteq> 1" using assms by auto
  from divmod_uint_single [OF b0, of a for a] b1
  obtain q' r where dm: "divmod_uint q [b] = Inr (q', uint_of r)" and cq: "canonical q'"
    and vq: "val q' = val q div unat b" and r: "unat r = val q mod unat b"
    by (metis (full_types))
  define st1 where "st1 = (fst st @ [chr c (unat r)], snd st XOR unat r)"
  have step: "encode_divmod c [b] q st =
      (if q' \<noteq> [] then encode_divmod c [b] q' st1 else Some (Inr st1))"
    by (subst encode_divmod.simps) (simp add: dm st1_def Let_def)
  show ?case
  proof (cases "val q < unat b")
    case True
    then have "val q' = 0" by (simp add: vq)
    with cq have "q' = []" by (rule canonical_val_0)
    moreover have "digits_lsd (unat b) (val q) = [val q]"
      using True by (subst digits_lsd.simps) simp
    moreover have "unat r = val q" using True by (simp add: r)
    ultimately show ?thesis using step by (simp add: st1_def)
  next
    case False
    then have "0 < val q div unat b" using assms by (simp add: div_greater_zero_iff)
    then have "q' \<noteq> []" using vq by auto
    moreover have "val q' < val q" using False assms by (simp add: vq)
    from less [OF this, of st1]
    have "encode_divmod c [b] q' st1 =
        Some (Inr (fst st1 @ map (chr c) (digits_lsd (unat b) (val q')),
                   snd st1 XOR xor_list (digits_lsd (unat b) (val q'))))" .
    moreover have "digits_lsd (unat b) (val q) = val q mod unat b # digits_lsd (unat b) (val q')"
      using False assms by (subst digits_lsd.simps) (simp add: vq)
    ultimately show ?thesis using step by (simp add: st1_def r ac_simps)
  qed
qed

subsection \<open>The shape of a checksum encoding\<close>


lemma well_formed_chr_inj0:
  assumes "well_formed c" "d < base c" "chr c d = chr c 0"
  shows "d = 0"
proof -
  have "ord c (chr c d) = d" "ord c (chr c 0) = 0"
    using assms(1,2) by (simp_all add: well_formed_def)
  with assms(3) show ?thesis by simp
qed



subsection \<open>Substitutions in a checksum encoding\<close>




subsection \<open>The tables the constructor builds\<close>

lemma ignored_loop_apply:
  "n \<le> length ig \<Longrightarrow>
     ignored_loop ig n od ch = (if ch \<in> set (take n ig) then 0 else od ch)"
proof (induction n arbitrary: od)
  case 0
  show ?case by simp
next
  case (Suc n)
  then have "n < length ig" by simp
  then have "take (Suc n) ig = take n ig @ [ig ! n]" by (rule take_Suc_conv_app_nth)
  then show ?case using Suc by auto
qed

lemma alphabet_step:
  "alphabet_loop al fl (Suc j) t =
     alphabet_loop al fl j ((fst t)(j := al ! j),
       \<lambda>ch. if ch \<in> written fl (al ! j) then j else snd t ch)"
proof -
  have "(\<lambda>ch. if ch \<in> written fl (al ! j) then j else snd t ch) =
      (let ch = al ! j; n = (of_char ch :: nat); o1 = (snd t)(ch := j)
       in (if fl AND 1 \<noteq> 0
           then (if 65 \<le> n \<and> n \<le> 90 then o1(char_of (n - 65 + 97) := j)
                 else if 97 \<le> n \<and> n \<le> 122 then o1(char_of (n - 97 + 65) := j)
                 else o1)
           else o1))"
    by (auto simp: written_def Let_def fun_eq_iff)
  then show ?thesis by (simp add: Let_def)
qed

lemma alphabet_loop_chr:
  "fst (alphabet_loop al fl n t) i = (if i < n then al ! i else fst t i)"
  by (induction n arbitrary: t) (simp_all add: alphabet_step del: alphabet_loop.simps(2) add: less_Suc_eq)

lemma alphabet_loop_ord_other:
  "\<forall>i < n. ch \<notin> written fl (al ! i) \<Longrightarrow> snd (alphabet_loop al fl n t) ch = snd t ch"
  by (induction n arbitrary: t) (simp_all add: alphabet_step del: alphabet_loop.simps(2))

lemma alphabet_loop_ord_first:
  "i < n \<Longrightarrow> ch \<in> written fl (al ! i) \<Longrightarrow> \<forall>j < i. ch \<notin> written fl (al ! j) \<Longrightarrow>
     snd (alphabet_loop al fl n t) ch = i"
proof (induction n arbitrary: t)
  case 0
  then show ?case by simp
next
  case (Suc n)
  show ?case
  proof (cases "i = n")
    case True
    then show ?thesis using Suc.prems
      by (simp add: alphabet_step alphabet_loop_ord_other del: alphabet_loop.simps(2))
  next
    case False
    then have "i < n" using Suc.prems by simp
    then show ?thesis using Suc
      by (simp add: alphabet_step del: alphabet_loop.simps(2))
  qed
qed

lemma BaseX_new_fields:
  "base (BaseX_new al ig fl) = length al"
  "base_bits (BaseX_new al ig fl) = uint_base_bits (length al)"
  "base_mask (BaseX_new al ig fl) = of_nat (length al) - 1"
  "block_size (BaseX_new al ig fl) = (if fl AND 2 \<noteq> 0 then uint_base_bits (length al) else 0)"
  "chr (BaseX_new al ig fl) = fst (alphabet_loop al fl (length al)
      (\<lambda>i. CHR 0x00, ignored_loop ig (length ig) (\<lambda>ch. 0xff)))"
  "ord (BaseX_new al ig fl) = snd (alphabet_loop al fl (length al)
      (\<lambda>i. CHR 0x00, ignored_loop ig (length ig) (\<lambda>ch. 0xff)))"
  by (simp_all add: BaseX_new_def Let_def)

lemma BaseX_new_chr:
  "chr (BaseX_new al ig fl) i = (if i < length al then al ! i else CHR 0x00)"
  by (simp add: BaseX_new_fields alphabet_loop_chr)

lemma BaseX_new_ord_first:
  "i < length al \<Longrightarrow> ch \<in> written fl (al ! i) \<Longrightarrow> \<forall>j < i. ch \<notin> written fl (al ! j) \<Longrightarrow>
     ord (BaseX_new al ig fl) ch = i"
  by (simp add: BaseX_new_fields alphabet_loop_ord_first)

lemma BaseX_new_ord_other:
  "\<forall>i < length al. ch \<notin> written fl (al ! i) \<Longrightarrow>
     ord (BaseX_new al ig fl) ch = (if ch \<in> set ig then 0 else 255)"
  by (simp add: BaseX_new_fields alphabet_loop_ord_other ignored_loop_apply)


lemma written_fold_case:
  assumes "ch \<in> written fl a"
  shows "fold_case fl ch = fold_case fl a"
proof (cases "ch = a")
  case True
  then show ?thesis by simp
next
  case False
  with assms have ic: "fl AND 1 \<noteq> 0"
    and ch: "(65 \<le> (of_char a :: nat) \<and> (of_char a :: nat) \<le> 90 \<and> ch = char_of ((of_char a :: nat) - 65 + 97))
      \<or> (97 \<le> (of_char a :: nat) \<and> (of_char a :: nat) \<le> 122 \<and> ch = char_of ((of_char a :: nat) - 97 + 65))"
    by (auto simp: written_def split: if_splits)
  from ch show ?thesis
  proof
    assume u: "65 \<le> (of_char a :: nat) \<and> (of_char a :: nat) \<le> 90 \<and> ch = char_of ((of_char a :: nat) - 65 + 97)"
    then have "(of_char ch :: nat) = of_char a + 32" by simp
    then show ?thesis using u ic by (simp add: fold_case_def)
  next
    assume l: "97 \<le> (of_char a :: nat) \<and> (of_char a :: nat) \<le> 122 \<and> ch = char_of ((of_char a :: nat) - 97 + 65)"
    moreover from l have "(of_char a :: nat) - 97 + 65 = of_char a - 32"
      "(of_char a :: nat) - 32 < 256" by linarith+
    ultimately have o: "(of_char ch :: nat) = of_char a - 32" by simp
    from l have rng: "65 \<le> (of_char a :: nat) - 32" "(of_char a :: nat) - 32 \<le> 90"
      "(of_char a :: nat) - 32 + 32 = of_char a" "\<not> (of_char a :: nat) \<le> 90" by linarith+
    have "fold_case fl ch = char_of ((of_char ch :: nat) + 32)"
      using ic rng(1,2) by (simp add: fold_case_def o)
    also have "\<dots> = a" by (simp only: o rng(3) char_of_char)
    also have "a = fold_case fl a" using rng(4) by (simp add: fold_case_def)
    finally show ?thesis .
  qed
qed

lemma nul_not_written:
  assumes "a \<noteq> CHR 0x00"
  shows "CHR 0x00 \<notin> written fl a"
proof
  assume "CHR 0x00 \<in> written fl a"
  with assms have "(65 \<le> (of_char a :: nat) \<and> (of_char a :: nat) \<le> 90 \<and> CHR 0x00 = char_of ((of_char a :: nat) - 65 + 97))
      \<or> (97 \<le> (of_char a :: nat) \<and> (of_char a :: nat) \<le> 122 \<and> CHR 0x00 = char_of ((of_char a :: nat) - 97 + 65))"
    by (auto simp: written_def split: if_splits)
  then have "(of_char (CHR 0x00) :: nat) \<noteq> 0"
    by (elim disjE conjE) (simp_all only: of_char_of, simp_all)
  then show False by simp
qed

lemma base_bits_table_pow2:
  "list_all (\<lambda>b. uint_base_bits b = 0 \<or> b = 2 ^ uint_base_bits b) [1..<257]"
  by code_simp

lemma uint_base_bits_pow2:
  assumes "1 \<le> b" "b \<le> 256" "uint_base_bits b \<noteq> 0"
  shows "b = 2 ^ uint_base_bits b"
proof -
  have "b \<in> set [1..<257]" using assms(1,2) by simp
  with base_bits_table_pow2 have "uint_base_bits b = 0 \<or> b = 2 ^ uint_base_bits b"
    unfolding list_all_iff by blast
  with assms(3) show ?thesis by simp
qed

lemma well_formed_BaseX_new:
  assumes len: "2 \<le> length al" "length al \<le> 255"
    and dist: "distinct (map (fold_case fl) al)"
    and nul: "CHR 0x00 \<notin> set al" "CHR 0x00 \<notin> set ig"
  shows "well_formed (BaseX_new al ig fl)"
proof -
  have first: "ord (BaseX_new al ig fl) (al ! d) = d" if d: "d < length al" for d
  proof (rule BaseX_new_ord_first [OF d])
    show "al ! d \<in> written fl (al ! d)" by (simp add: written_def)
    show "\<forall>j < d. al ! d \<notin> written fl (al ! j)"
    proof (intro allI impI notI)
      fix j assume j: "j < d" and w: "al ! d \<in> written fl (al ! j)"
      from written_fold_case [OF w] have "map (fold_case fl) al ! d = map (fold_case fl) al ! j"
        using d j by simp
      moreover have "map (fold_case fl) al ! d \<noteq> map (fold_case fl) al ! j"
        using dist d j unfolding distinct_conv_nth by simp
      ultimately show False by simp
    qed
  qed
  have "\<forall>i < length al. CHR 0x00 \<notin> written fl (al ! i)"
    using nul(1) by (auto intro!: nul_not_written simp: in_set_conv_nth)
  then have other: "ord (BaseX_new al ig fl) (CHR 0x00) = 255"
    using nul(2) by (simp add: BaseX_new_ord_other)
  show ?thesis
    unfolding well_formed_def
    using len first other uint_base_bits_pow2 [of "length al"]
    by (auto simp: BaseX_new_fields(1-4) BaseX_new_chr)
qed

subsection \<open>The bundled codecs are well formed\<close>

lemma well_formed_base2: "well_formed base2"
  unfolding base2_def by (rule well_formed_BaseX_new; code_simp)

lemma well_formed_base8: "well_formed base8"
  unfolding base8_def by (rule well_formed_BaseX_new; code_simp)

lemma well_formed_base11: "well_formed base11"
  unfolding base11_def by (rule well_formed_BaseX_new; code_simp)

lemma well_formed_base16: "well_formed base16"
  unfolding base16_def by (rule well_formed_BaseX_new; code_simp)

lemma well_formed_base16_rfc4648: "well_formed base16_rfc4648"
  unfolding base16_rfc4648_def by (rule well_formed_BaseX_new; code_simp)

lemma well_formed_base32: "well_formed base32"
  unfolding base32_def by (rule well_formed_BaseX_new; code_simp)

lemma well_formed_base32_hex: "well_formed base32_hex"
  unfolding base32_hex_def by (rule well_formed_BaseX_new; code_simp)

lemma well_formed_base32_rfc4648: "well_formed base32_rfc4648"
  unfolding base32_rfc4648_def by (rule well_formed_BaseX_new; code_simp)

lemma well_formed_base32_rfc4648hex: "well_formed base32_rfc4648hex"
  unfolding base32_rfc4648hex_def by (rule well_formed_BaseX_new; code_simp)

lemma well_formed_base32_crockford: "well_formed base32_crockford"
  unfolding base32_crockford_def by (rule well_formed_BaseX_new; code_simp)

lemma well_formed_base36: "well_formed base36"
  unfolding base36_def by (rule well_formed_BaseX_new; code_simp)

lemma well_formed_base58_gmp: "well_formed base58_gmp"
  unfolding base58_gmp_def by (rule well_formed_BaseX_new; code_simp)

lemma well_formed_base58_bitcoin: "well_formed base58_bitcoin"
  unfolding base58_bitcoin_def by (rule well_formed_BaseX_new; code_simp)

lemma well_formed_base58_ripple: "well_formed base58_ripple"
  unfolding base58_ripple_def by (rule well_formed_BaseX_new; code_simp)

lemma well_formed_base58_flickr: "well_formed base58_flickr"
  unfolding base58_flickr_def by (rule well_formed_BaseX_new; code_simp)

lemma well_formed_base62_inverted: "well_formed base62_inverted"
  unfolding base62_inverted_def by (rule well_formed_BaseX_new; code_simp)

lemma well_formed_base62: "well_formed base62"
  unfolding base62_def by (rule well_formed_BaseX_new; code_simp)

lemma well_formed_base64: "well_formed base64"
  unfolding base64_def by (rule well_formed_BaseX_new; code_simp)

lemma well_formed_base64_url: "well_formed base64_url"
  unfolding base64_url_def by (rule well_formed_BaseX_new; code_simp)

lemma well_formed_base64_rfc4648: "well_formed base64_rfc4648"
  unfolding base64_rfc4648_def by (rule well_formed_BaseX_new; code_simp)

lemma well_formed_base64_rfc4648url: "well_formed base64_rfc4648url"
  unfolding base64_rfc4648url_def by (rule well_formed_BaseX_new; code_simp)

lemma well_formed_base66: "well_formed base66"
  unfolding base66_def by (rule well_formed_BaseX_new; code_simp)

section \<open>The power-of-two branch of encode\<close>

lemma bit_groups_0 [simp]: "bit_groups b M sh 0 = []"
  by (simp add: bit_groups_def)

lemma bit_groups_Suc:
  "bit_groups b M sh (Suc k) = (M div 2 ^ sh) mod 2 ^ b # bit_groups b M (sh + b) k"
proof -
  have "[0..<Suc k] = 0 # map Suc [0..<k]"
    by (simp add: upt_conv_Cons map_Suc_upt del: upt_Suc)
  then show ?thesis by (simp add: bit_groups_def comp_def algebra_simps del: upt_Suc)
qed

lemma bit_groups_add:
  "bit_groups b M sh (k + l) = bit_groups b M sh k @ bit_groups b M (sh + k * b) l"
  by (induction k arbitrary: sh) (simp_all add: bit_groups_Suc algebra_simps)

lemma bit_groups_shift:
  "bit_groups b (M div 2 ^ t) sh k = bit_groups b M (t + sh) k"
  by (simp add: bit_groups_def div_exp_eq algebra_simps)

lemma bit_groups_less: "d \<in> set (bit_groups b M sh k) \<Longrightarrow> d < 2 ^ b"
  by (auto simp: bit_groups_def)

lemma lsd_val_append: "lsd_val B (xs @ ys) = lsd_val B xs + B ^ length xs * lsd_val B ys"
  by (induction xs) (simp_all add: algebra_simps)

lemma length_bit_groups [simp]: "length (bit_groups b M sh k) = k"
  by (simp add: bit_groups_def)

lemma lsd_val_bit_groups:
  "lsd_val (2 ^ b) (bit_groups b M sh k) = (M div 2 ^ sh) mod 2 ^ (b * k)"
proof (induction k arbitrary: sh)
  case 0
  show ?case by simp
next
  case (Suc k)
  define X where "X = M div 2 ^ sh"
  have "M div 2 ^ (sh + b) = X div 2 ^ b" by (simp add: X_def div_exp_eq)
  then have "lsd_val (2 ^ b) (bit_groups b M sh (Suc k))
      = X mod 2 ^ b + 2 ^ b * ((X div 2 ^ b) mod 2 ^ (b * k))"
    by (simp add: bit_groups_Suc Suc X_def)
  also have "\<dots> = X mod (2 ^ b * 2 ^ (b * k))"
    by (simp add: mod_mult2_eq)
  finally show ?case by (simp add: X_def power_add)
qed

lemma window_group:
  assumes "t + b \<le> 64"
  shows "((M mod 2 ^ 64) div 2 ^ t) mod 2 ^ b = (M div 2 ^ t) mod (2 ^ b :: nat)"
proof -
  have "min b (64 - t) = b" using assms by simp
  then have "take_bit b (drop_bit t (take_bit 64 M)) = take_bit b (drop_bit t M)"
    by (simp add: drop_bit_take_bit)
  then show ?thesis by (simp add: take_bit_eq_mod drop_bit_eq_div)
qed

lemma emit_window_value:
  assumes "0 < base_bits c" "base_bits c \<le> 32"
    and "\<And>x. unat (x AND base_mask c) = unat x mod 2 ^ base_bits c"
    and "sh \<le> 32" and "unat v = M mod 2 ^ 64"
  shows "\<exists>k. emit_window c v (ds, s, sh)
       = (ds @ bit_groups (base_bits c) M sh k,
          s XOR xor_list (bit_groups (base_bits c) M sh k), sh + k * base_bits c)
     \<and> 32 < sh + k * base_bits c \<and> sh + k * base_bits c \<le> 32 + base_bits c"
  using assms
proof (induction c v "(ds, s, sh)" arbitrary: ds s sh rule: emit_window.induct)
  case (1 c v ds s sh)
  define b where "b = base_bits c"
  define d where "d = unat (drop_bit sh v AND base_mask c)"
  have "d = (unat v div 2 ^ sh) mod 2 ^ b"
    by (simp add: d_def "1.prems"(3) unat_drop_bit_div b_def)
  also have "\<dots> = (M div 2 ^ sh) mod 2 ^ b"
  proof -
    have "sh + b \<le> 64" using "1.prems"(2,4) by (simp add: b_def)
    from window_group [OF this, of M] show ?thesis by (simp add: "1.prems"(5))
  qed
  finally have d: "d = (M div 2 ^ sh) mod 2 ^ b" .
  have step: "emit_window c v (ds, s, sh) =
      (if sh + b \<le> 32 \<and> b \<noteq> 0
       then emit_window c v (ds @ [d], s XOR d, sh + b)
       else (ds @ [d], s XOR d, sh + b))"
    by (subst emit_window.simps) (simp add: Let_def d_def b_def)
  show ?case
  proof (cases "sh + b \<le> 32")
    case True
    then have T: "sh + base_bits c \<le> 32 \<and> base_bits c \<noteq> 0" using "1.prems"(1) by (simp add: b_def)
    from True have "sh + b \<le> 32" .
    from "1.hyps" [OF d_def refl T "1.prems"(1,2,3) _ "1.prems"(5)] True
    obtain k where k: "emit_window c v (ds @ [d], s XOR d, sh + b)
        = ((ds @ [d]) @ bit_groups b M (sh + b) k,
           (s XOR d) XOR xor_list (bit_groups b M (sh + b) k), sh + b + k * b)"
      "32 < sh + b + k * b" "sh + b + k * b \<le> 32 + b"
      by (auto simp: b_def)
    have "emit_window c v (ds, s, sh) = emit_window c v (ds @ [d], s XOR d, sh + b)"
      using step T by (simp add: b_def)
    then show ?thesis using k
      by (intro exI [of _ "Suc k"]) (simp add: bit_groups_Suc d b_def [symmetric] ac_simps)
  next
    case False
    then have "emit_window c v (ds, s, sh) = (ds @ [d], s XOR d, sh + b)"
      using step by simp
    then show ?thesis using False "1.prems"(4)
      by (intro exI [of _ "Suc 0"]) (simp add: bit_groups_Suc d b_def [symmetric])
  qed
qed

lemma half_digit_less: "unat (h :: half_digit) < 2 ^ 32"
  using unsigned_less [of h] by simp

lemma unat_window:
  fixes v :: digit and h :: half_digit
  shows "unat (drop_bit 32 v OR push_bit 32 (ucast h :: digit)) = unat v div 2 ^ 32 + 2 ^ 32 * unat h"
proof -
  have "unat v < 2 ^ 32 * 2 ^ 32" using digit_less [of v] by simp
  then have c: "unat (drop_bit 32 v) < 2 ^ 32"
    by (simp add: unat_drop_bit_div less_mult_imp_div_less)
  have "unat h < 2 ^ 64" using half_digit_less [of h] by simp
  then have h: "unat (ucast h :: digit) = unat h"
    by (simp add: unsigned_ucast_eq take_bit_nat_eq_self)
  have "unat h * 2 ^ 32 < 2 ^ 32 * 2 ^ 32" using half_digit_less [of h] by simp
  then have "(unat h * 2 ^ 32) mod 2 ^ 64 = unat h * 2 ^ 32" by simp
  with unat_push_bit_or [of 32 "drop_bit 32 v" "ucast h", OF _ c]
  have "unat (push_bit 32 (ucast h :: digit) OR drop_bit 32 v) = unat h * 2 ^ 32 + unat (drop_bit 32 v)"
    by (simp add: h)
  then show ?thesis by (simp add: or.commute unat_drop_bit_div)
qed

lemma encode_windows_value:
  assumes b: "0 < base_bits c" "base_bits c \<le> 32"
    and m: "\<And>x. unat (x AND base_mask c) = unat x mod 2 ^ base_bits c"
    and sh: "sh \<le> base_bits c"
  shows "\<exists>v' K sh'. encode_windows c hs v (ds, s, sh)
       = (v', ds @ bit_groups (base_bits c) (unat (drop_bit 32 v) + 2 ^ 32 * hval hs) sh K,
          s XOR xor_list (bit_groups (base_bits c) (unat (drop_bit 32 v) + 2 ^ 32 * hval hs) sh K), sh')
     \<and> 32 * length hs + sh' = sh + K * base_bits c \<and> sh' \<le> base_bits c
     \<and> unat (drop_bit 32 v') = (unat (drop_bit 32 v) + 2 ^ 32 * hval hs) div 2 ^ (32 * length hs)"
  using sh
proof (induction hs arbitrary: v ds s sh)
  case Nil
  show ?case using Nil by (intro exI [of _ v] exI [of _ 0] exI [of _ sh]) simp
next
  case (Cons h hs)
  define bb where "bb = base_bits c"
  define M where "M = unat (drop_bit 32 v) + 2 ^ 32 * hval (h # hs)"
  define v1 where "v1 = drop_bit 32 v OR push_bit 32 (ucast h :: digit)"
  have uv1: "unat v1 = unat (drop_bit 32 v) + 2 ^ 32 * unat h"
    by (simp add: v1_def unat_window unat_drop_bit_div)
  have "unat v1 < 2 ^ 64" by (rule digit_less)
  moreover have "M = unat v1 + 2 ^ 64 * hval hs" by (simp add: M_def uv1)
  ultimately have win: "unat v1 = M mod 2 ^ 64" by simp
  have sh32: "sh \<le> 32" using Cons.prems b(2) by simp
  from emit_window_value [OF b m sh32 win, of ds s]
  obtain k where e: "emit_window c v1 (ds, s, sh)
       = (ds @ bit_groups bb M sh k, s XOR xor_list (bit_groups bb M sh k), sh + k * bb)"
    and k1: "32 < sh + k * bb" and k2: "sh + k * bb \<le> 32 + bb"
    by (auto simp: bb_def)
  define t where "t = sh + k * bb"
  have t': "t - 32 \<le> base_bits c" using k2 by (simp add: t_def bb_def)
  define M' where "M' = unat (drop_bit 32 v1) + 2 ^ 32 * hval hs"
  have "unat v1 div 2 ^ 32 = unat h"
    using half_digit_less [of h] digit_less [of v]
    by (simp add: uv1 unat_drop_bit_div less_mult_imp_div_less)
  then have M': "M' = M div 2 ^ 32"
    using digit_less [of v]
    by (simp add: M'_def M_def unat_drop_bit_div less_mult_imp_div_less)
  from Cons.IH [OF t', of v1 "ds @ bit_groups bb M sh k" "s XOR xor_list (bit_groups bb M sh k)"]
  obtain v' K sh' where w: "encode_windows c hs v1
        (ds @ bit_groups bb M sh k, s XOR xor_list (bit_groups bb M sh k), t - 32)
       = (v', (ds @ bit_groups bb M sh k) @ bit_groups bb M' (t - 32) K,
          (s XOR xor_list (bit_groups bb M sh k)) XOR xor_list (bit_groups bb M' (t - 32) K), sh')"
    and c1: "32 * length hs + sh' = t - 32 + K * bb" and c2: "sh' \<le> bb"
    and c3: "unat (drop_bit 32 v') = M' div 2 ^ (32 * length hs)"
    by (auto simp: bb_def M'_def)
  have g: "bit_groups bb M' (t - 32) K = bit_groups bb M t K"
    using k1 bit_groups_shift [of bb M 32 "t - 32" K] by (simp add: M' t_def)
  have cat: "bit_groups bb M sh (k + K) = bit_groups bb M sh k @ bit_groups bb M t K"
    by (simp add: bit_groups_add t_def)
  have e': "emit_window c v1 (ds, s, sh)
       = (ds @ bit_groups bb M sh k, s XOR xor_list (bit_groups bb M sh k), t)"
    by (simp add: e t_def)
  have w': "encode_windows c hs v1
        (ds @ bit_groups bb M sh k, s XOR xor_list (bit_groups bb M sh k), t - 32)
       = (v', ds @ bit_groups bb M sh (k + K), s XOR xor_list (bit_groups bb M sh (k + K)), sh')"
    by (simp add: w g cat xor.assoc)
  have r1: "encode_windows c (h # hs) v (ds, s, sh)
      = (v', ds @ bit_groups bb M sh (k + K), s XOR xor_list (bit_groups bb M sh (k + K)), sh')"
    by (simp add: v1_def [symmetric] e' w')
  have r2: "32 * length (h # hs) + sh' = sh + (k + K) * bb"
    using c1 k1 by (simp add: t_def algebra_simps)
  have r3: "unat (drop_bit 32 v') = M div 2 ^ (32 * length (h # hs))"
    using div_exp_eq [of M 32 "32 * length hs"] by (simp add: c3 M')
  show ?case
    apply (rule exI [of _ v'], rule exI [of _ "k + K"], rule exI [of _ sh'])
    unfolding bb_def [symmetric] M_def [symmetric]
    using r1 r2 r3 c2 apply blast
    done
qed

lemma encode_flush_value:
  assumes "0 < base_bits c"
    and "\<And>x. unat (x AND base_mask c) = unat x mod 2 ^ base_bits c"
  shows "\<exists>k. encode_flush c v (ds, s)
       = (ds @ bit_groups (base_bits c) (unat v) 0 k,
          s XOR xor_list (bit_groups (base_bits c) (unat v) 0 k))
     \<and> unat v div 2 ^ (k * base_bits c) = 0"
  using assms
proof (induction c v "(ds, s)" arbitrary: ds s rule: encode_flush.induct)
  case (1 c v ds s)
  define bb where "bb = base_bits c"
  define d where "d = unat (v AND base_mask c)"
  have d: "d = unat v mod 2 ^ bb" by (simp add: d_def "1.prems"(2) bb_def)
  have step: "encode_flush c v (ds, s) =
      (if v \<noteq> 0 \<and> base_bits c \<noteq> 0
       then encode_flush c (drop_bit bb v) (ds @ [d], s XOR d)
       else (ds, s))"
    by (subst encode_flush.simps) (simp add: Let_def d_def bb_def)
  show ?case
  proof (cases "v = 0")
    case True
    then have "encode_flush c v (ds, s) = (ds, s)" using step by simp
    then show ?thesis using True by (intro exI [of _ 0]) simp
  next
    case False
    then have T: "v \<noteq> 0 \<and> base_bits c \<noteq> 0" using "1.prems"(1) by simp
    from "1.hyps" [OF T d_def "1.prems"]
    obtain k where k: "encode_flush c (drop_bit bb v) (ds @ [d], s XOR d)
        = ((ds @ [d]) @ bit_groups bb (unat (drop_bit bb v)) 0 k,
           (s XOR d) XOR xor_list (bit_groups bb (unat (drop_bit bb v)) 0 k))"
      and z: "unat (drop_bit bb v) div 2 ^ (k * bb) = 0"
      by (auto simp: bb_def)
    have g: "bit_groups bb (unat (drop_bit bb v)) 0 k = bit_groups bb (unat v) bb k"
      by (simp add: unat_drop_bit_div bit_groups_shift)
    have "encode_flush c v (ds, s) = encode_flush c (drop_bit bb v) (ds @ [d], s XOR d)"
      using step T by simp
    moreover have "unat v div 2 ^ (Suc k * bb) = 0"
      using z by (simp add: unat_drop_bit_div div_exp_eq add.commute)
    ultimately show ?thesis using k
      by (intro exI [of _ "Suc k"])
         (simp add: bit_groups_Suc g d bb_def [symmetric] ac_simps del: mult_Suc)
  qed
qed

subsection \<open>Half digits\<close>

lemma length_half_digits [simp]: "length (half_digits xs) = 2 * length xs"
  by (induction xs) (simp_all add: half_digits_def)

lemma hval_half_digits [simp]: "hval (half_digits xs) = val xs"
proof (induction xs)
  case Nil
  show ?case by (simp add: half_digits_def)
next
  case (Cons x xs)
  have lo: "unat (ucast x :: half_digit) = unat x mod 2 ^ 32"
    by (simp add: unsigned_ucast_eq take_bit_eq_mod)
  have "unat x < 2 ^ 32 * 2 ^ 32" using digit_less [of x] by simp
  then have "unat x div 2 ^ 32 < 2 ^ 32" by (simp add: less_mult_imp_div_less)
  then have hi: "unat (ucast (drop_bit 32 x) :: half_digit) = unat x div 2 ^ 32"
    by (simp add: unsigned_ucast_eq take_bit_eq_mod unat_drop_bit_div)
  have "half_digits (x # xs) = ucast x # ucast (drop_bit 32 x) # half_digits xs"
    by (simp add: half_digits_def)
  then have "hval (half_digits (x # xs))
      = unat x mod 2 ^ 32 + 2 ^ 32 * (unat x div 2 ^ 32 + 2 ^ 32 * val xs)"
    using Cons by (simp only: hval.simps lo hi)
  also have "\<dots> = (unat x mod 2 ^ 32 + 2 ^ 32 * (unat x div 2 ^ 32)) + 2 ^ 64 * val xs"
    by (simp add: algebra_simps)
  also have "\<dots> = val (x # xs)" by (simp only: mod_mult_div_eq val.simps)
  finally show ?case .
qed

subsection \<open>The digits that encode pushes\<close>

lemma unat_and_pow2_mask:
  fixes x :: digit
  shows "unat (x AND (of_nat (2 ^ b) - 1)) = unat x mod 2 ^ b"
proof -
  have "(of_nat (2 ^ b) - 1 :: digit) = mask b" by (simp add: mask_eq_exp_minus_1)
  then have "x AND (of_nat (2 ^ b) - 1) = take_bit b x" by (simp add: take_bit_eq_mask)
  then have "unat (x AND (of_nat (2 ^ b) - 1)) = take_bit b (unat x)"
    by (simp only: unsigned_take_bit_eq)
  then show ?thesis by (simp only: take_bit_eq_mod)
qed

lemma well_formed_mask_mod:
  assumes "well_formed c" "base_bits c \<noteq> 0"
  shows "unat (x AND base_mask c) = unat x mod 2 ^ base_bits c"
proof -
  have "base_mask c = of_nat (2 ^ base_bits c) - 1"
    using assms by (simp add: well_formed_def)
  then show ?thesis by (simp only: unat_and_pow2_mask)
qed

lemma well_formed_base_bits_le:
  assumes "well_formed c"
  shows "base_bits c \<le> 8"
proof (cases "base_bits c = 0")
  case False
  with assms have "(2::nat) ^ base_bits c \<le> 2 ^ 8" by (simp add: well_formed_def)
  then show ?thesis
    by (simp only: power_increasing_iff [of "2::nat"] one_less_numeral_iff semiring_norm)
qed simp

lemma lsd_val_snoc_zero [simp]: "lsd_val B (ds @ [0]) = lsd_val B ds"
  by (simp add: lsd_val_append)

lemma strip_chr_value:
  assumes "\<And>d. d < b \<Longrightarrow> chr c d = chr c 0 \<Longrightarrow> d = 0" and "\<forall>d \<in> set ds. d < b"
  shows "\<exists>ds'. rev (dropWhile (\<lambda>x. x = chr c 0) (rev (map (chr c) ds))) = map (chr c) ds'
     \<and> lsd_val B ds' = lsd_val B ds \<and> set ds' \<subseteq> set ds"
  using assms(2)
proof (induction ds rule: rev_induct)
  case Nil
  show ?case by (intro exI [of _ "[]"]) simp
next
  case (snoc d ds)
  show ?case
  proof (cases "chr c d = chr c 0")
    case True
    with assms(1) [of d] snoc.prems have "d = 0" by simp
    from snoc obtain ds' where
      "rev (dropWhile (\<lambda>x. x = chr c 0) (rev (map (chr c) ds))) = map (chr c) ds'"
      "lsd_val B ds' = lsd_val B ds" "set ds' \<subseteq> set ds" by auto
    then show ?thesis using True \<open>d = 0\<close>
      by (intro exI [of _ ds']) auto
  next
    case False
    then show ?thesis by (intro exI [of _ "ds @ [d]"]) simp
  qed
qed

lemma unat_first_window:
  fixes h :: half_digit
  shows "unat (drop_bit 32 (push_bit 32 (ucast h :: digit))) = unat h"
proof -
  have "unat (drop_bit 32 (0 :: digit) OR push_bit 32 (ucast h :: digit)) = 2 ^ 32 * unat h"
    by (simp only: unat_window) simp
  then have "unat (push_bit 32 (ucast h :: digit)) = 2 ^ 32 * unat h" by simp
  then show ?thesis by (simp add: unat_drop_bit_div)
qed

lemma encode_pow2_value:
  assumes b: "0 < base_bits c" "base_bits c \<le> 32"
    and m: "\<And>x. unat (x AND base_mask c) = unat x mod 2 ^ base_bits c"
    and inj: "\<And>d. d < 2 ^ base_bits c \<Longrightarrow> chr c d = chr c 0 \<Longrightarrow> d = 0"
    and ne: "quot \<noteq> []"
  shows "\<exists>ds. (\<exists>s. encode_pow2 c (length quot) quot = Inr (map (chr c) ds, s))
     \<and> (\<forall>d \<in> set ds. d < 2 ^ base_bits c)
     \<and> lsd_val (2 ^ base_bits c) ds = val quot"
proof -
  define bb where "bb = base_bits c"
  define M where "M = val quot"
  define hs where "hs = take (length quot * 2) (half_digits quot)"
  have hs: "hs = half_digits quot" by (simp add: hs_def mult.commute)
  obtain x xs where q: "quot = x # xs" using ne by (cases quot) auto
  have hs2: "hs = ucast x # tl hs" by (simp add: hs q half_digits_def)
  define v0 :: digit where "v0 = push_bit 32 (ucast (hd hs))"
  have "hval (hd hs # tl hs) = unat (hd hs) + 2 ^ 32 * hval (tl hs)" by simp
  moreover have "hd hs # tl hs = hs" using hs2 by (metis list.sel(1,3))
  ultimately have "hval hs = unat (hd hs) + 2 ^ 32 * hval (tl hs)" by simp
  then have M0: "unat (drop_bit 32 v0) + 2 ^ 32 * hval (tl hs) = M"
    by (simp add: v0_def unat_first_window M_def hs)
  have "\<exists>v' K sh'. encode_windows c (tl hs) v0 ([], 0, 0)
       = (v', [] @ bit_groups bb M 0 K, 0 XOR xor_list (bit_groups bb M 0 K), sh')
     \<and> 32 * length (tl hs) + sh' = 0 + K * bb \<and> sh' \<le> bb
     \<and> unat (drop_bit 32 v') = M div 2 ^ (32 * length (tl hs))"
    unfolding bb_def M0 [symmetric] by (rule encode_windows_value [OF b m]) simp
  then obtain v' K sh' where w0: "encode_windows c (tl hs) v0 ([], 0, 0)
       = (v', [] @ bit_groups bb M 0 K, 0 XOR xor_list (bit_groups bb M 0 K), sh')"
    and c0: "32 * length (tl hs) + sh' = 0 + K * bb"
    and c3: "unat (drop_bit 32 v') = M div 2 ^ (32 * length (tl hs))"
    by blast
  have w: "encode_windows c (tl hs) v0 ([], 0, 0)
        = (v', bit_groups bb M 0 K, xor_list (bit_groups bb M 0 K), sh')"
    using w0 by simp
  have c1: "32 * length (tl hs) + sh' = K * bb" using c0 by simp
  define v2 where "v2 = drop_bit (sh' + 32) v'"
  have "unat v2 = unat (drop_bit 32 v') div 2 ^ sh'"
    using div_exp_eq [of "unat v'" 32 sh']
    by (simp only: v2_def unat_drop_bit_div add.commute)
  also have "\<dots> = M div 2 ^ (32 * length (tl hs) + sh')"
    by (simp only: c3 div_exp_eq)
  also have "\<dots> = M div 2 ^ (K * bb)"
    by (simp only: c1)
  finally have v2: "unat v2 = M div 2 ^ (K * bb)" .
  from encode_flush_value [OF b(1) m, of v2 "bit_groups bb M 0 K" "xor_list (bit_groups bb M 0 K)"]
  obtain k where f: "encode_flush c v2 (bit_groups bb M 0 K, xor_list (bit_groups bb M 0 K))
       = (bit_groups bb M 0 K @ bit_groups bb (unat v2) 0 k,
          xor_list (bit_groups bb M 0 K) XOR xor_list (bit_groups bb (unat v2) 0 k))"
    and z: "unat v2 div 2 ^ (k * bb) = 0"
    by (auto simp: bb_def)
  define DS where "DS = bit_groups bb M 0 (K + k)"
  have "bit_groups bb (unat v2) 0 k = bit_groups bb M (K * bb) k"
    using bit_groups_shift [of bb M "K * bb" 0 k] by (simp add: v2)
  then have DS: "bit_groups bb M 0 K @ bit_groups bb (unat v2) 0 k = DS"
    by (simp add: DS_def bit_groups_add)
  have "M div 2 ^ (bb * (K + k)) = 0"
    using z div_exp_eq [of M "K * bb" "k * bb"] by (simp add: v2 algebra_simps)
  then have "M < 2 ^ (bb * (K + k))" by (simp add: div_eq_0_iff)
  then have val: "lsd_val (2 ^ bb) DS = M"
    by (simp add: DS_def lsd_val_bit_groups)
  have all: "\<forall>d \<in> set DS. d < 2 ^ bb"
    by (auto simp: DS_def dest: bit_groups_less)
  from strip_chr_value [of "2 ^ bb" c DS "2 ^ bb"] inj all
  obtain ds' where s: "rev (dropWhile (\<lambda>x. x = chr c 0) (rev (map (chr c) DS))) = map (chr c) ds'"
    "lsd_val (2 ^ bb) ds' = lsd_val (2 ^ bb) DS" "set ds' \<subseteq> set DS"
    unfolding bb_def by blast
  have "\<exists>s. encode_pow2 c (length quot) quot = Inr (map (chr c) ds', s)"
    using w f s(1)
    by (simp add: encode_pow2_def Let_def hs_def [symmetric] v0_def [symmetric]
          v2_def [symmetric] DS)
  then show ?thesis using s(2,3) all val
    unfolding bb_def M_def by (intro exI [of _ ds']) auto
qed

subsection \<open>The digits of the general branch\<close>

lemma lsd_val_digits_lsd: "lsd_val b (digits_lsd b n) = n"
proof (induction b n rule: digits_lsd.induct)
  case (1 b n)
  show ?case
  proof (cases "n < b \<or> b < 2")
    case True
    then show ?thesis by (subst digits_lsd.simps) simp
  next
    case False
    with 1 have "lsd_val b (digits_lsd b (n div b)) = n div b" by simp
    with False show ?thesis by (subst digits_lsd.simps) simp
  qed
qed

subsection \<open>encode without block padding\<close>

lemma encode_digits:
  assumes wf: "well_formed c" and bs: "block_size c = 0" and ne: "n \<noteq> []"
  shows "\<exists>ds. encode c n False = Some (Inr (map (chr c) (rev ds)))
     \<and> (\<forall>d \<in> set ds. d < base c) \<and> lsd_val (base c) ds = val n"
proof -
  have quot: "bitwise_lshift n (uint_of (of_nat (encode_bp c n))) = n"
    using bs by (simp add: encode_bp_def uint_of_def bitwise_lshift_def)
  have "\<exists>ds s. (if base_bits c \<noteq> 0 then Some (encode_pow2 c (length n) n)
               else encode_divmod c (uint_of (of_nat (base c))) n ([], 0))
            = Some (Inr (map (chr c) ds, s))
        \<and> (\<forall>d \<in> set ds. d < base c) \<and> lsd_val (base c) ds = val n"
  proof (cases "base_bits c \<noteq> 0")
    case True
    then have B: "base c = 2 ^ base_bits c" using wf by (simp add: well_formed_def)
    have b: "0 < base_bits c" "base_bits c \<le> 32"
      using True well_formed_base_bits_le [OF wf] by simp_all
    have inj: "\<And>d. d < 2 ^ base_bits c \<Longrightarrow> chr c d = chr c 0 \<Longrightarrow> d = 0"
      using well_formed_chr_inj0 [OF wf] by (simp add: B [symmetric])
    from encode_pow2_value [OF b well_formed_mask_mod [OF wf True] inj ne]
    show ?thesis using True by (simp add: B [symmetric])
  next
    case False
    have ub: "unat (of_nat (base c) :: digit) = base c"
      using wf by (simp add: well_formed_def unat_of_nat)
    then have b2: "2 \<le> unat (of_nat (base c) :: digit)" using wf by (simp add: well_formed_def)
    then have "(of_nat (base c) :: digit) \<noteq> 0" by auto
    then have u: "uint_of (of_nat (base c) :: digit) = [of_nat (base c)]" by (simp add: uint_of_def)
    have "\<forall>d \<in> set (digits_lsd (base c) (val n)). d < base c"
      using digits_lsd_less [of "base c"] wf by (auto simp: well_formed_def)
    then show ?thesis
      using False encode_divmod_result [OF b2, of c n "([], 0)"]
      by (intro exI [of _ "digits_lsd (base c) (val n)"]) (simp add: u ub lsd_val_digits_lsd)
  qed
  then obtain ds s where ds: "(if base_bits c \<noteq> 0 then Some (encode_pow2 c (length n) n)
               else encode_divmod c (uint_of (of_nat (base c))) n ([], 0))
            = Some (Inr (map (chr c) ds, s))"
    and lt: "\<forall>d \<in> set ds. d < base c" and v: "lsd_val (base c) ds = val n"
    by blast
  have "encode c n False = Some (Inr (map (chr c) (rev ds)))"
    using ne unfolding encode_def Let_def quot ds by (simp add: rev_map)
  then show ?thesis using lt v by blast
qed

section \<open>The arithmetic decode uses\<close>

subsection \<open>Addition\<close>

lemma prim_addcarry_value:
  assumes "prim_addcarry x y c = (cy, r)" and "unat c \<le> 1"
  shows "unat cy * 2 ^ 64 + unat r = unat x + unat y + unat c" and "unat cy \<le> 1"
proof -
  define w :: wide where "w = ucast x + ucast y + ucast c"
  have lt: "unat x + unat y + unat c < 2 ^ 65"
    using digit_less [of x] digit_less [of y] assms(2) by simp
  then have "unat x + unat y + unat c < 2 ^ 128" by simp
  then have uw: "unat w = unat x + unat y + unat c"
    unfolding w_def by (simp add: unat_word_ariths)
  have cr: "cy = (if drop_bit 64 w \<noteq> 0 then 1 else 0)" "r = ucast w"
    using assms(1) by (simp_all add: prim_addcarry_def w_def Let_def)
  have hi: "unat (drop_bit 64 w) = unat w div 2 ^ 64" by (rule unat_drop_bit_div)
  have "unat w div 2 ^ 64 \<le> 1" using lt uw by simp
  moreover have "drop_bit 64 w \<noteq> 0 \<Longrightarrow> 1 \<le> unat w div 2 ^ 64"
    using hi by (metis unat_eq_0 not_less_eq_eq le_zero_eq One_nat_def)
  moreover have "drop_bit 64 w = 0 \<Longrightarrow> unat w div 2 ^ 64 = 0"
    using hi by simp
  ultimately have "unat cy = unat w div 2 ^ 64"
    by (cases "drop_bit 64 w = 0") (simp_all add: cr(1))
  moreover have "unat r = unat w mod 2 ^ 64"
    unfolding cr by (rule unat_ucast_down)
  ultimately show "unat cy * 2 ^ 64 + unat r = unat x + unat y + unat c"
    using uw by simp
  show "unat cy \<le> 1" by (simp add: cr(1))
qed

lemma val_add_digits:
  "unat c \<le> 1 \<Longrightarrow> val (add_digits c xs ys) = val xs + val ys + unat c"
proof (induction c xs ys rule: add_digits.induct)
  case (1 carry x xs y ys)
  obtain cy r where p: "prim_addcarry x y carry = (cy, r)" by (cases "prim_addcarry x y carry")
  from prim_addcarry_value [OF p "1.prems"]
  have e: "unat cy * 2 ^ 64 + unat r = unat x + unat y + unat carry" and c: "unat cy \<le> 1" .
  from "1.IH" [OF p [symmetric] refl c]
  have "val (add_digits cy xs ys) = val xs + val ys + unat cy" .
  then show ?case using e by (simp add: p algebra_simps)
next
  case (2 carry x xs)
  obtain cy r where p: "prim_addcarry x 0 carry = (cy, r)" by (cases "prim_addcarry x 0 carry")
  from prim_addcarry_value [OF p "2.prems"]
  have e: "unat cy * 2 ^ 64 + unat r = unat x + unat (0 :: digit) + unat carry"
    and c: "unat cy \<le> 1" .
  from "2.IH" [OF p [symmetric] refl c]
  have "val (add_digits cy xs []) = val xs + val [] + unat cy" .
  then show ?case using e by (simp add: p algebra_simps)
next
  case (3 carry y ys)
  obtain cy r where p: "prim_addcarry 0 y carry = (cy, r)" by (cases "prim_addcarry 0 y carry")
  from prim_addcarry_value [OF p "3.prems"]
  have e: "unat cy * 2 ^ 64 + unat r = unat (0 :: digit) + unat y + unat carry"
    and c: "unat cy \<le> 1" .
  from "3.IH" [OF p [symmetric] refl c]
  have "val (add_digits cy [] ys) = val [] + val ys + unat cy" .
  then show ?case using e by (simp add: p algebra_simps)
next
  case (4 carry)
  have "unat carry = 0 \<or> unat carry = 1" using "4.prems" by auto
  then show ?case by (auto simp: unat_eq_0)
qed

lemma val_add [simp]: "val (add xs ys) = val xs + val ys"
  by (simp add: add_def long_add_def val_add_digits)

lemma canonical_add: "canonical xs \<Longrightarrow> canonical ys \<Longrightarrow> canonical (add xs ys)"
  by (simp add: add_def long_add_def)

subsection \<open>Multiplication by one digit\<close>

lemma val_single_mult_digits:
  "val (single_mult_digits n carry xs) = val xs * unat n + unat carry"
proof (induction xs arbitrary: carry)
  case Nil
  show ?case by simp
next
  case (Cons x xs)
  obtain hi lo where p: "prim_multadd x n 0 carry = (hi, lo)" by (cases "prim_multadd x n 0 carry")
  from prim_multadd_value [OF p]
  have "unat hi * 2 ^ 64 + unat lo = unat x * unat n + unat carry" by simp
  then show ?case using Cons [of hi] by (simp add: p algebra_simps)
qed

lemma val_single_mult: "val (single_mult xs ys) = val xs * unat (to_digit ys)"
  by (simp add: single_mult_def val_single_mult_digits)

lemma canonical_single_mult [simp]: "canonical (single_mult xs ys)"
  by (simp add: single_mult_def)

lemma compare_uint_1: "compare xs uint_1 = 0 \<longleftrightarrow> xs = [1]"
proof (cases xs)
  case Nil
  then show ?thesis by (simp add: compare_def uint_of_def)
next
  case (Cons x xs')
  show ?thesis
  proof (cases xs')
    case Nil
    with Cons show ?thesis by (simp add: compare_def uint_of_def)
  next
    case (Cons y ys)
    with \<open>xs = x # xs'\<close> show ?thesis by (simp add: compare_def uint_of_def)
  qed
qed

lemma mult_single:
  assumes "2 \<le> unat b"
  shows "\<exists>p. mult xs [b] = Inr p \<and> canonical p \<and> val p = val xs * unat b"
proof -
  have b1: "b \<noteq> 1" and b0: "b \<noteq> 0" using assms by auto
  consider (empty) "xs = []" | (one) "xs = [1]" | (single) x where "xs = [x]" "x \<noteq> 1"
    | (long) "2 \<le> length xs"
  proof (cases xs)
    case Nil
    then show ?thesis using empty by simp
  next
    case (Cons x xs')
    then show ?thesis using one single [of x] long by (cases xs') auto
  qed
  then show ?thesis
  proof cases
    case empty
    then show ?thesis by (simp add: mult_def uint_of_def)
  next
    case one
    then show ?thesis using b0 by (simp add: mult_def compare_uint_1 canonical_def)
  next
    case single
    then have "mult xs [b] = Inr (single_mult [b] [x])"
      using b1
      by (simp add: mult_def compare_uint_1 karatsuba_mult_def long_mult_def
            long_mult_ordered_def)
    then show ?thesis using single
      by (simp add: val_single_mult to_digit_def mult.commute)
  next
    case long
    then have ne: "xs \<noteq> []" "xs \<noteq> [1]" "1 < length xs" by auto
    then have "mult xs [b] = Inr (single_mult xs [b])"
      using b1
      by (simp add: mult_def compare_uint_1 karatsuba_mult_def long_mult_def
            long_mult_ordered_def)
    then show ?thesis by (simp add: val_single_mult to_digit_def)
  qed
qed

subsection \<open>A digit put below a shifted number\<close>

lemma or_digits_Nil2 [simp]: "or_digits xs [] = xs"
  by (cases xs) simp_all

lemma unat_or_low:
  fixes x d :: digit
  assumes "b < 64" "2 ^ b dvd unat x" "unat d < 2 ^ b"
  shows "unat (x OR d) = unat x + unat d"
proof -
  from assms(2) obtain q where q: "unat x = 2 ^ b * q" by (auto simp: dvd_def)
  have "q \<le> 2 ^ b * q" by simp
  moreover have "2 ^ b * q < (2::nat) ^ 64" using digit_less [of x] q by simp
  ultimately have "q < 2 ^ 64" by (rule le_less_trans)
  then have uq: "unat (of_nat q :: digit) = q" by (simp add: unat_of_nat)
  have "x = of_nat (unat x)" by simp
  also have "\<dots> = push_bit b (of_nat q)" by (simp add: q push_bit_eq_mult)
  finally have x: "x = push_bit b (of_nat q)" .
  have "unat (push_bit b (of_nat q :: digit) OR d) = (unat (of_nat q :: digit) * 2 ^ b) mod 2 ^ 64 + unat d"
    using assms(1,3) by (rule unat_push_bit_or)
  also have "(unat (of_nat q :: digit) * 2 ^ b) mod 2 ^ 64 = unat x"
    using digit_less [of x] by (simp add: uq q mult.commute)
  finally show ?thesis using x by simp
qed

lemma val_bitwise_or_digit:
  assumes "b < 64" "2 ^ b dvd val xs" "unat d < 2 ^ b"
  shows "val (bitwise_or xs (uint_of d)) = val xs + unat d"
proof (cases "d = 0")
  case True
  then show ?thesis by (simp add: bitwise_or_def uint_of_def)
next
  case False
  show ?thesis
  proof (cases xs)
    case Nil
    then show ?thesis using False by (simp add: bitwise_or_def uint_of_def)
  next
    case (Cons x xs')
    have "(2::nat) ^ b dvd 2 ^ 64" using assms(1) by (intro le_imp_power_dvd) simp
    then have "(2::nat) ^ b dvd 2 ^ 64 * val xs'" by (rule dvd_mult2)
    moreover have "2 ^ b dvd unat x + 2 ^ 64 * val xs'" using assms(2) Cons by simp
    ultimately have "2 ^ b dvd unat x" by (simp only: dvd_add_left_iff)
    from unat_or_low [OF assms(1) this assms(3)]
    show ?thesis using False Cons by (simp add: bitwise_or_def uint_of_def)
  qed
qed

lemma canonical_bitwise_or [simp]: "canonical (bitwise_or xs ys)"
  by (simp add: bitwise_or_def)

section \<open>The number decode computes\<close>

lemma decode_pow2_value:
  assumes wf: "well_formed c" and bb: "base_bits c \<noteq> 0"
  shows "\<forall>e \<in> set es. e < base c \<Longrightarrow> canonical acc \<Longrightarrow>
     \<exists>r s'. decode_pow2 c (map (chr c) es) s acc = Inr (r, s') \<and> canonical r
       \<and> val r = val acc * base c ^ length es + lsd_val (base c) (rev es)"
proof (induction es arbitrary: acc s)
  case Nil
  then show ?case by simp
next
  case (Cons e es)
  have B: "base c = 2 ^ base_bits c" using wf bb by (simp add: well_formed_def)
  have b8: "base_bits c \<le> 8" by (rule well_formed_base_bits_le [OF wf])
  have e: "e < base c" using Cons.prems(1) by simp
  then have o: "ord c (chr c e) = e" using wf by (simp add: well_formed_def)
  have "e < 256" using e wf by (simp add: well_formed_def)
  then have ue: "unat (of_nat e :: digit) = e" by (simp add: unat_of_nat)
  have ub: "unat (of_nat (base_bits c) :: digit) = base_bits c"
    using b8 by (simp add: unat_of_nat)
  define sh where "sh = bitwise_lshift acc (uint_of (of_nat (base_bits c)))"
  define acc' where "acc' = bitwise_or sh (uint_of (of_nat e))"
  have k: "unat (of_nat (base_bits c) :: digit) < 64" using b8 by (simp add: ub)
  have vs: "val sh = val acc * 2 ^ base_bits c"
    unfolding sh_def using bitwise_lshift_small(1) [OF k, of acc] by (simp add: ub)
  have "base_bits c < 64" using b8 by simp
  moreover have "2 ^ base_bits c dvd val sh" by (simp add: vs)
  moreover have "unat (of_nat e :: digit) < 2 ^ base_bits c" using e by (simp add: ue B)
  ultimately have "val acc' = val sh + unat (of_nat e :: digit)"
    unfolding acc'_def by (rule val_bitwise_or_digit)
  then have va: "val acc' = val acc * base c + e" by (simp add: vs ue B)
  have ca: "canonical acc'" by (simp add: acc'_def)
  from Cons.IH [OF _ ca, of "s XOR e"] Cons.prems(1)
  obtain r s' where r: "decode_pow2 c (map (chr c) es) (s XOR e) acc' = Inr (r, s')"
    "canonical r" "val r = val acc' * base c ^ length es + lsd_val (base c) (rev es)"
    by auto
  have "decode_pow2 c (map (chr c) (e # es)) s acc = Inr (r, s')"
    using e r(1) by (simp add: o Let_def acc'_def sh_def)
  moreover have "val r = val acc * base c ^ length (e # es) + lsd_val (base c) (rev (e # es))"
    by (simp add: r(3) va lsd_val_append algebra_simps)
  ultimately show ?case using r(2) by blast
qed

lemma decode_general_value:
  assumes wf: "well_formed c"
  shows "\<forall>e \<in> set es. e < base c \<Longrightarrow> canonical acc \<Longrightarrow>
     \<exists>r s'. decode_general c (uint_of (of_nat (base c))) (map (chr c) es) s acc = Inr (r, s')
       \<and> canonical r
       \<and> val r = val acc * base c ^ length es + lsd_val (base c) (rev es)"
proof (induction es arbitrary: acc s)
  case Nil
  then show ?case by simp
next
  case (Cons e es)
  have ub: "unat (of_nat (base c) :: digit) = base c"
    using wf by (simp add: well_formed_def unat_of_nat)
  then have b2: "2 \<le> unat (of_nat (base c) :: digit)" using wf by (simp add: well_formed_def)
  then have "(of_nat (base c) :: digit) \<noteq> 0" by auto
  then have u: "uint_of (of_nat (base c) :: digit) = [of_nat (base c)]" by (simp add: uint_of_def)
  have e: "e < base c" using Cons.prems(1) by simp
  then have o: "ord c (chr c e) = e" using wf by (simp add: well_formed_def)
  have "e < 256" using e wf by (simp add: well_formed_def)
  then have ue: "unat (of_nat e :: digit) = e" by (simp add: unat_of_nat)
  from mult_single [OF b2, of acc]
  obtain p where p: "mult acc [of_nat (base c)] = Inr p" "canonical p" "val p = val acc * base c"
    by (auto simp: ub)
  define acc' where "acc' = add p (uint_of (of_nat e))"
  have va: "val acc' = val acc * base c + e" by (simp add: acc'_def p(3) ue)
  have ca: "canonical acc'" unfolding acc'_def using p(2) by (intro canonical_add) simp_all
  from Cons.IH [OF _ ca, of "s XOR e"] Cons.prems(1)
  obtain r s' where r: "decode_general c (uint_of (of_nat (base c))) (map (chr c) es) (s XOR e) acc'
       = Inr (r, s')"
    "canonical r" "val r = val acc' * base c ^ length es + lsd_val (base c) (rev es)"
    by auto
  have "decode_general c (uint_of (of_nat (base c))) (map (chr c) (e # es)) s acc = Inr (r, s')"
    using e r(1) p(1) by (simp add: o Let_def acc'_def u)
  moreover have "val r = val acc * base c ^ length (e # es) + lsd_val (base c) (rev (e # es))"
    by (simp add: r(3) va lsd_val_append algebra_simps)
  ultimately show ?case using r(2) by blast
qed

lemma bitwise_rshift_0 [simp]: "bitwise_rshift r (uint_of 0) = r"
  by (simp add: bitwise_rshift_def uint_of_def)

lemma decode_digits:
  assumes wf: "well_formed c" and bs: "block_size c = 0" and lt: "\<forall>d \<in> set ds. d < base c"
  shows "\<exists>r. decode c (map (chr c) (rev ds)) False = Inr r \<and> canonical r
     \<and> val r = lsd_val (base c) ds"
proof (cases "base_bits c \<noteq> 0")
  case True
  have lt': "\<forall>e \<in> set (rev ds). e < base c" using lt by simp
  from decode_pow2_value [OF wf True lt', of uint_0 0]
  obtain r s' where r: "decode_pow2 c (map (chr c) (rev ds)) 0 uint_0 = Inr (r, s')"
    "canonical r" "val r = lsd_val (base c) ds"
    by auto
  have "decode c (map (chr c) (rev ds)) False = Inr r"
    using True r(1) bs by (simp add: decode_def Let_def)
  then show ?thesis using r(2,3) by blast
next
  case False
  have lt': "\<forall>e \<in> set (rev ds). e < base c" using lt by simp
  from decode_general_value [OF wf lt', of uint_0 0]
  obtain r s' where r: "decode_general c (uint_of (of_nat (base c))) (map (chr c) (rev ds)) 0 uint_0
      = Inr (r, s')"
    "canonical r" "val r = lsd_val (base c) ds"
    by auto
  have "decode c (map (chr c) (rev ds)) False = Inr r"
    using False r(1) bs by (simp add: decode_def Let_def)
  then show ?thesis using r(2,3) by blast
qed

section \<open>Bytes and digits\<close>

lemma of_char_byte: "\<exists>x < 256. of_char b = (x :: nat)"
proof -
  have "(of_char b :: nat) mod 256 < 256" by (rule mod_less_divisor) simp
  then show ?thesis by simp
qed

lemma bval_less: "bval bs < 256 ^ length bs"
proof (induction bs)
  case Nil
  show ?case by simp
next
  case (Cons b bs)
  obtain x :: nat where x: "x < 256" "of_char b = x" using of_char_byte [of b] by blast
  have "bval bs + 1 \<le> 256 ^ length bs" using Cons by simp
  then have "256 * (bval bs + 1) \<le> 256 * 256 ^ length bs" by (rule mult_le_mono2)
  then show ?case using x(1) by (simp add: x(2))
qed

lemma unat_bytes_digit:
  "length bs \<le> 8 \<Longrightarrow> unat (bytes_digit bs) = bval bs"
proof (induction bs)
  case Nil
  show ?case by simp
next
  case (Cons b bs)
  obtain x :: nat where x: "x < 256" "of_char b = x" using of_char_byte [of b] by blast
  have b: "unat (of_nat (of_char b) :: digit) = of_char b"
    using x(1) by (simp add: x(2) unat_of_nat)
  have "unat (of_nat (of_char b) :: digit) < 2 ^ 8" unfolding b using x by simp
  with unat_push_bit_or [of 8 "of_nat (of_char b)" "bytes_digit bs"]
  have "unat (push_bit 8 (bytes_digit bs) OR of_nat (of_char b))
      = (unat (bytes_digit bs) * 2 ^ 8) mod 2 ^ 64 + of_char b"
    by (simp only: b)
  moreover have "unat (bytes_digit bs) = bval bs" using Cons by simp
  moreover have "bval bs * 2 ^ 8 < 2 ^ 64"
  proof -
    have "length bs \<le> 7" using Cons.prems by simp
    then have "(256::nat) ^ length bs \<le> 256 ^ 7" by (intro power_increasing) simp_all
    then have "bval bs < 256 ^ 7" using bval_less [of bs] by (rule less_le_trans [rotated])
    then show ?thesis by simp
  qed
  ultimately have "unat (push_bit 8 (bytes_digit bs) OR of_nat (of_char b))
      = bval bs * 2 ^ 8 + of_char b" by simp
  then show ?case by (simp add: or.commute)
qed

lemma bval_byte:
  "i < length bs \<Longrightarrow> char_of (bval bs div 256 ^ i) = bs ! i"
proof (induction bs arbitrary: i)
  case Nil
  then show ?case by simp
next
  case (Cons b bs)
  show ?case
  proof (cases i)
    case 0
    have "char_of ((of_char b :: nat) + 256 * bval bs) = char_of (((of_char b :: nat) + 256 * bval bs) mod 256)"
      by (simp only: char_of_mod_256)
    also have "((of_char b :: nat) + 256 * bval bs) mod 256 = of_char b" by simp
    finally show ?thesis using 0 by simp
  next
    case (Suc j)
    obtain x :: nat where x: "x < 256" "of_char b = x" using of_char_byte [of b] by blast
    then have "((of_char b :: nat) + 256 * bval bs) div 256 = bval bs" by simp
    then have "((of_char b :: nat) + 256 * bval bs) div 256 ^ Suc j = bval bs div 256 ^ j"
      using div_mult2_eq [of "(of_char b :: nat) + 256 * bval bs" 256 "256 ^ j"] by simp
    then show ?thesis using Suc Cons by simp
  qed
qed

lemma digit_bytes_nth:
  "digit_bytes d = map (\<lambda>i. char_of (unat d div 256 ^ i)) [0..<8]"
proof -
  have "unat (drop_bit (8 * i) d) = unat d div 256 ^ i" for i
  proof -
    have "(256::nat) ^ i = 2 ^ (8 * i)" by (simp add: power_mult)
    then show ?thesis by (simp only: unat_drop_bit_div)
  qed
  then show ?thesis unfolding digit_bytes_def by (simp only:)
qed

lemma digit_bytes_bytes_digit:
  assumes "length bs = 8"
  shows "digit_bytes (bytes_digit bs) = bs"
proof -
  have "digit_bytes (bytes_digit bs) = map (\<lambda>i. char_of (bval bs div 256 ^ i)) [0..<length bs]"
    using assms by (simp only: digit_bytes_nth unat_bytes_digit order_refl)
  also have "\<dots> = map ((!) bs) [0..<length bs]"
    by (rule map_cong) (simp_all add: bval_byte)
  also have "\<dots> = bs" by (rule map_nth)
  finally show ?thesis .
qed

lemma concat_group_digits:
  "length bs = 8 * n \<Longrightarrow> concat (map digit_bytes (group_digits n bs)) = bs"
proof (induction n arbitrary: bs)
  case 0
  then show ?case by simp
next
  case (Suc n)
  have "length (take 8 bs) = 8" using Suc.prems by simp
  then have "digit_bytes (bytes_digit (take 8 bs)) = take 8 bs"
    by (rule digit_bytes_bytes_digit)
  moreover have "concat (map digit_bytes (group_digits n (drop 8 bs))) = drop 8 bs"
    using Suc.prems by (intro Suc.IH) simp
  ultimately show ?case by simp
qed

lemma zero_of_zero_bytes:
  "(n :: nat) < 256 ^ k \<Longrightarrow> \<forall>i < k. char_of (n div 256 ^ i) = CHR 0x00 \<Longrightarrow> n = 0"
proof (induction k arbitrary: n)
  case 0
  then show ?case by simp
next
  case (Suc k)
  have "char_of (n div 256 ^ 0) = CHR 0x00" using Suc.prems(2) by blast
  then have "of_char (char_of n) = (of_char (CHR 0x00) :: nat)" by simp
  then have m: "n mod 256 = 0" by simp
  have "n div 256 < 256 ^ k" using Suc.prems(1) by (simp add: less_mult_imp_div_less mult.commute)
  moreover have "\<forall>i < k. char_of ((n div 256) div 256 ^ i) = CHR 0x00"
  proof (intro allI impI)
    fix i assume "i < k"
    then have "Suc i < Suc k" by simp
    from Suc.prems(2) [rule_format, OF this]
    have "char_of (n div 256 ^ Suc i) = CHR 0x00" .
    then show "char_of ((n div 256) div 256 ^ i) = CHR 0x00"
      by (simp add: div_mult2_eq)
  qed
  ultimately have "n div 256 = 0" by (rule Suc.IH)
  with m show ?case by (metis mult_div_mod_eq add.right_neutral mult_zero_right)
qed

lemma digit_bytes_zero_iff:
  "set (digit_bytes d) \<subseteq> {CHR 0x00} \<longleftrightarrow> d = 0"
proof
  assume a: "set (digit_bytes d) \<subseteq> {CHR 0x00}"
  have "unat d < 256 ^ 8" using digit_less [of d] by simp
  moreover have "\<forall>i < 8. char_of (unat d div 256 ^ i) = CHR 0x00"
  proof (intro allI impI)
    fix i :: nat assume "i < 8"
    then have "i \<in> set [0..<8]" by simp
    then have "char_of (unat d div 256 ^ i) \<in> set (digit_bytes d)"
      unfolding digit_bytes_nth set_map by (rule imageI)
    then show "char_of (unat d div 256 ^ i) = CHR 0x00" using a by blast
  qed
  ultimately have "unat d = 0" by (rule zero_of_zero_bytes)
  then show "d = 0" by (simp add: unat_eq_0)
next
  assume "d = 0"
  moreover have "digit_bytes 0 = replicate 8 (CHR 0x00)" by code_simp
  ultimately show "set (digit_bytes d) \<subseteq> {CHR 0x00}" by simp
qed

subsection \<open>The number of a byte string\<close>

lemma strtouint_256:
  assumes "s \<noteq> []"
  shows "\<exists>num pad. strtouint s 256 = Inr num \<and> num \<noteq> []
     \<and> rev (concat (map digit_bytes num)) = replicate pad (CHR 0x00) @ s"
proof -
  define pad where "pad = (if length s mod 8 \<noteq> 0 then 8 - length s mod 8 else 0)"
  define vs where "vs = (if length s mod 8 \<noteq> 0 then length s div 8 + 1 else length s div 8)"
  define buffer where "buffer = replicate pad (CHR 0x00) @ s"
  have st: "strtouint s 256 = Inr (group_digits vs (rev buffer))"
    using assms by (simp add: strtouint_def Let_def pad_def vs_def buffer_def)
  have len: "length (rev buffer) = 8 * vs"
  proof (cases "length s mod 8 = 0")
    case True
    then show ?thesis by (auto simp: buffer_def pad_def vs_def)
  next
    case False
    define m q where "m = length s mod 8" and "q = length s div 8"
    have "m < 8" by (simp add: m_def)
    moreover have "length s = 8 * q + m" by (simp add: m_def q_def)
    ultimately have "8 - m + length s = 8 * (q + 1)" by simp
    then have "8 - length s mod 8 + length s = 8 * (length s div 8 + 1)"
      by (simp only: m_def q_def)
    then show ?thesis using False by (simp add: buffer_def pad_def vs_def)
  qed
  have "0 < vs" using assms len by (cases "vs = 0") (simp_all add: buffer_def)
  then obtain m where "vs = Suc m" by (cases vs) simp_all
  then have ne: "group_digits vs (rev buffer) \<noteq> []" by simp
  have "concat (map digit_bytes (group_digits vs (rev buffer))) = rev buffer"
    using len by (rule concat_group_digits)
  then have "rev (concat (map digit_bytes (group_digits vs (rev buffer)))) = buffer" by simp
  then show ?thesis using st ne unfolding buffer_def by blast
qed

subsection \<open>The bytes of a number\<close>

lemma strip_zeros_decomp: "\<exists>k. xs = strip_zeros xs @ replicate k 0"
proof (induction xs rule: rev_induct)
  case Nil
  show ?case by simp
next
  case (snoc x xs)
  define ys where "ys = strip_zeros xs"
  from snoc obtain k where k: "xs = ys @ replicate k 0" unfolding ys_def by blast
  show ?case
  proof (cases "x = 0")
    case True
    have e1: "strip_zeros (xs @ [x]) = strip_zeros xs"
      using True by (simp add: strip_zeros_snoc)
    have "xs @ [0] = ys @ replicate (Suc k) 0"
      by (simp add: k replicate_append_same)
    then have e2: "xs @ [x] = strip_zeros xs @ replicate (Suc k) 0"
      by (simp only: ys_def True)
    have "xs @ [x] = strip_zeros (xs @ [x]) @ replicate (Suc k) 0"
      unfolding e1 by (rule e2)
    then show ?thesis by blast
  next
    case False
    then have "xs @ [x] = strip_zeros (xs @ [x]) @ replicate 0 0"
      by (simp add: strip_zeros_snoc)
    then show ?thesis by blast
  qed
qed

lemma raw_of_bytes:
  assumes num: "rev (concat (map digit_bytes num)) = replicate pad (CHR 0x00) @ s"
    and r: "canonical r" "val r = val num"
  shows "raw r = (if set s \<subseteq> {CHR 0x00} then [CHR 0x00] else dropWhile (\<lambda>b. b = CHR 0x00) s)"
proof -
  have rs: "r = strip_zeros num"
    using r by (intro canonical_val_inj) simp_all
  from strip_zeros_decomp [of num] obtain k where k: "num = r @ replicate k 0"
    unfolding rs by blast
  define z where "z = rev (concat (replicate k (digit_bytes 0)))"
  have zz: "\<And>x. x \<in> set z \<Longrightarrow> x = CHR 0x00"
    using digit_bytes_zero_iff [of 0] by (auto simp: z_def)
  have "rev (concat (map digit_bytes num)) = z @ rev (concat (map digit_bytes r))"
    by (subst k) (simp add: z_def map_replicate_const)
  then have e: "z @ rev (concat (map digit_bytes r)) = replicate pad (CHR 0x00) @ s"
    using num by simp
  have "dropWhile (\<lambda>b. b = CHR 0x00) (z @ rev (concat (map digit_bytes r)))
      = dropWhile (\<lambda>b. b = CHR 0x00) (rev (concat (map digit_bytes r)))"
    using zz by (intro dropWhile_append2) simp
  moreover have "dropWhile (\<lambda>b. b = CHR 0x00) (replicate pad (CHR 0x00) @ s)
      = dropWhile (\<lambda>b. b = CHR 0x00) s"
    by (intro dropWhile_append2) simp
  ultimately have d: "dropWhile (\<lambda>b. b = CHR 0x00) (rev (concat (map digit_bytes r)))
      = dropWhile (\<lambda>b. b = CHR 0x00) s"
    using e by simp
  show ?thesis
  proof (cases "r = []")
    case True
    then have "z = replicate pad (CHR 0x00) @ s" using e by simp
    then have "set s \<subseteq> {CHR 0x00}" using zz by auto
    then show ?thesis using True by (simp add: raw_def)
  next
    case False
    then have "last r \<noteq> 0" using r(1) by (simp add: canonical_def)
    then have "\<not> set (digit_bytes (last r)) \<subseteq> {CHR 0x00}"
      using digit_bytes_zero_iff [of "last r"] by blast
    moreover have "last r \<in> set r" using False by simp
    ultimately have "\<not> set (concat (map digit_bytes r)) \<subseteq> {CHR 0x00}" by auto
    then have "\<not> set (z @ rev (concat (map digit_bytes r))) \<subseteq> {CHR 0x00}" by auto
    then have "\<not> set (replicate pad (CHR 0x00) @ s) \<subseteq> {CHR 0x00}" unfolding e .
    then have ns: "\<not> set s \<subseteq> {CHR 0x00}" by auto
    have "raw r = dropWhile (\<lambda>b. b = CHR 0x00) (rev (concat (map digit_bytes r)))"
      using False by (simp add: raw_def)
    then show ?thesis using ns d by simp
  qed
qed

section \<open>The round trip\<close>

lemma decode_encode:
  assumes wf: "well_formed c" and bs: "block_size c = 0" and ne: "n \<noteq> []"
  shows "\<exists>e r. encode c n False = Some (Inr e) \<and> decode c e False = Inr r
     \<and> canonical r \<and> val r = val n"
proof -
  from encode_digits [OF wf bs ne]
  obtain ds where e: "encode c n False = Some (Inr (map (chr c) (rev ds)))"
    and lt: "\<forall>d \<in> set ds. d < base c" and v: "lsd_val (base c) ds = val n"
    by blast
  from decode_digits [OF wf bs lt]
  obtain r where "decode c (map (chr c) (rev ds)) False = Inr r" "canonical r"
    "val r = lsd_val (base c) ds"
    by blast
  then show ?thesis using e v by auto
qed

lemma decode_encode_bytes:
  assumes wf: "well_formed c" and bs: "block_size c = 0" and ne: "s \<noteq> []"
  shows "\<exists>e. encode_bytes c s False = Some (Inr e)
     \<and> decode_bytes c e False
         = Inr (if set s \<subseteq> {CHR 0x00} then [CHR 0x00] else dropWhile (\<lambda>b. b = CHR 0x00) s)"
proof -
  from strtouint_256 [OF ne]
  obtain num pad where n: "strtouint s 256 = Inr num" "num \<noteq> []"
    "rev (concat (map digit_bytes num)) = replicate pad (CHR 0x00) @ s"
    by blast
  from decode_encode [OF wf bs n(2)]
  obtain e r where e: "encode c num False = Some (Inr e)" "decode c e False = Inr r"
    and r: "canonical r" "val r = val num"
    by blast
  have "encode_bytes c s False = Some (Inr e)"
    by (simp add: encode_bytes_def n(1) e(1))
  moreover have "decode_bytes c e False = Inr (raw r)"
    by (simp add: decode_bytes_def e(2))
  ultimately show ?thesis using raw_of_bytes [OF n(3) r] by simp
qed

lemma block_size_unpadded: "\<forall>c \<in> set unpadded_codecs. block_size c = 0"
  by code_simp

lemma well_formed_unpadded: "c \<in> set unpadded_codecs \<Longrightarrow> well_formed c"
  unfolding unpadded_codecs_def
  using well_formed_base2 well_formed_base8 well_formed_base11 well_formed_base16
    well_formed_base16_rfc4648 well_formed_base32 well_formed_base32_hex
    well_formed_base32_crockford well_formed_base36 well_formed_base58_gmp
    well_formed_base58_bitcoin well_formed_base58_ripple well_formed_base58_flickr
    well_formed_base62_inverted well_formed_base62 well_formed_base64 well_formed_base64_url
    well_formed_base66
  by auto

section \<open>Results\<close>

subsection \<open>Bitwise NOT of zero\<close>

text \<open>
  C8 (as stated): bitwise NOT (\<^verbatim>\<open>operator~\<close>) applied to the value 0 returns 0.
  It does not: \<^verbatim>\<open>operator~\<close> runs the three-argument \<^verbatim>\<open>bitwise_inv\<close>, which
  fills the one digit of the result with \<^verbatim>\<open>~0\<close> and masks it to one bit.
\<close>

theorem operator_not_zero_counterexample: "operator_not uint_0 \<noteq> uint_0"
  by code_simp

text \<open>
  C8 (amended): bitwise NOT (\<^verbatim>\<open>operator~\<close>) applied to the value 0 returns 1;
  zero is inverted as a value one bit wide.
\<close>

theorem operator_not_zero: "operator_not uint_0 = uint_1"
  by code_simp

text \<open>
  The in-place overload behind \<^verbatim>\<open>inv()\<close> differs: it appends a digit 0 and
  inverts none, so it returns 0.
\<close>

lemma bitwise_inv_inplace_zero: "bitwise_inv_inplace uint_0 = uint_0"
  by code_simp

subsection \<open>The multiply-add primitive\<close>

text \<open>
  C9: for all digits x, y, a, c the primitive \<^verbatim>\<open>_multadd\<close> returns (hi, lo) with
  hi * 2^64 + lo = x * y + a + c on every implementation branch, the manually
  split half-digit fallback included.  The fallback loses a carry: in
  \<^verbatim>\<open>v = (x1 * y0) + (u >> 32) + (a >> 32) + (c >> 32)\<close> the sum can reach
  2^64 + 2^32 - 2 and wraps.  For x = y = a = c = 2^64 - 1 the exact result is
  hi = lo = 2^64 - 1 (which the \<^verbatim>\<open>__uint128_t\<close> branch returns) and the
  fallback returns hi = 2^64 - 2^32 - 1.
\<close>

theorem prim_multadd_split_loses_carry:
  "prim_multadd_split 0xFFFFFFFFFFFFFFFF 0xFFFFFFFFFFFFFFFF 0xFFFFFFFFFFFFFFFF 0xFFFFFFFFFFFFFFFF
     = (0xFFFFFFFEFFFFFFFF, 0xFFFFFFFFFFFFFFFF)
   \<and> prim_multadd 0xFFFFFFFFFFFFFFFF 0xFFFFFFFFFFFFFFFF 0xFFFFFFFFFFFFFFFF 0xFFFFFFFFFFFFFFFF
     = (0xFFFFFFFFFFFFFFFF, 0xFFFFFFFFFFFFFFFF)"
  by code_simp

subsection \<open>Canonical form\<close>

text \<open>
  C5: every public operation, construction from a byte buffer with base 256
  through \<^verbatim>\<open>strtouint\<close> included, returns a value in canonical form.  The
  base-256 path of \<^verbatim>\<open>strtouint\<close> never trims: the one byte 0x00 gives the digit
  sequence [0], of size 1, for the value 0.
\<close>

theorem strtouint_256_not_canonical:
  "strtouint [CHR 0x00] 256 = Inr [0] \<and> \<not> canonical [0]"
  by code_simp

subsection \<open>The pre-shift of encode\<close>

text \<open>
  C4: with \<^verbatim>\<open>block_size > 0\<close>, \<^verbatim>\<open>encode\<close> shifts n left by the specification's
  bp for every bit length of n, those of 249 bits and more included.  The
  source masks with \<^verbatim>\<open>0xf8\<close>, not with \<^verbatim>\<open>~7\<close>: for n = 2^248 (249 bits) and the
  codec \<^verbatim>\<open>base32::rfc4648\<close> (block size 5) the specification's shift is 4 and the
  source's is 0.
\<close>

theorem encode_bp_mask_too_narrow:
  "bits [0, 0, 0, 0x100000000000000] = 249
   \<and> block_size base32_rfc4648 = 5
   \<and> encode_bp base32_rfc4648 [0, 0, 0, 0x100000000000000] = 0
   \<and> spec_bp 5 249 = 4"
  by code_simp

subsection \<open>Ignored characters\<close>

text \<open>
  C3: characters of the ignored set are skipped by \<^verbatim>\<open>decode\<close> and contribute no
  digit, so that a string with ignored characters between its digits decodes to
  the number the string without them decodes to.  The constructor writes 0 into
  \<^verbatim>\<open>_ord\<close> for an ignored character and \<^verbatim>\<open>decode\<close> has no skip: the character is
  the digit 0.  With \<^verbatim>\<open>base16::rfc4648\<close>, "F F" decodes to 0xF0F and "FF" to 0xFF.
\<close>

theorem decode_ignored_is_zero_digit:
  "decode base16_rfc4648 ''F F'' False = Inr [0xF0F]
   \<and> decode base16_rfc4648 ''FF'' False = Inr [0xFF]"
  by code_simp

subsection \<open>Decoding the empty string\<close>

text \<open>
  C10: for every codec, decoding the empty string without checksum succeeds and
  returns the value 0, although encoding 0 gives the one-character string
  \<^verbatim>\<open>chr(0)\<close> and not the empty string.
\<close>

theorem decode_empty:
  "decode c [] False = Inr uint_0 \<and> val uint_0 = 0
   \<and> encode c uint_0 False = Some (Inr [chr c 0])"
  by (simp add: decode_def encode_def uint_of_def bitwise_rshift_def)

subsection \<open>Division\<close>

text \<open>
  C1: for all a and b with b not 0, \<^verbatim>\<open>divmod(a, b)\<close> returns (q, r) with
  q * b + r = a and r < b, on the fast paths, the single-digit sweep and Knuth's
  Algorithm D.  Algorithm D estimates a quotient digit by
  \<^verbatim>\<open>_divmod(v[k+n], v[k+n-1], wm1)\<close>, whose quotient is narrowed to 64 bits; when
  \<^verbatim>\<open>v[k+n] = wm1\<close> the quotient 2^64 or 2^64 + 1 loses its top bit and the
  estimate is 0 or 1 where Knuth's step D3 takes 2^64 - 1.  For
  a = 2^191 and b = 2^127 + 2^64 - 1 the source returns q = 0 and r = 0.
\<close>

theorem knuth_divmod_estimate_overflow:
  "divmod_uint [0, 0, 0x8000000000000000] [0xFFFFFFFFFFFFFFFF, 0x8000000000000000]
     = Inr ([], [])"
  by code_simp

subsection \<open>Checksum\<close>




subsection \<open>Construction\<close>

text \<open>
  C7 (as stated): construction fails for every alphabet with a duplicate
  character and for every alphabet that shares a character with the ignored
  set.  The constructor has no test and no \<^verbatim>\<open>throw\<close>: from the alphabet "00", and
  from the alphabet "01" with the ignored set "1", it builds codecs, which
  \<^verbatim>\<open>is_valid\<close> and \<^verbatim>\<open>decode\<close> use as any other.
\<close>

theorem BaseX_new_counterexample:
  "base (BaseX_new ''00'' [] 0) = 2
   \<and> ord (BaseX_new ''00'' [] 0) CHR ''0'' = 0
   \<and> is_valid (BaseX_new ''00'' [] 0) ''00'' False
   \<and> ord (BaseX_new ''01'' ''1'' 0) CHR ''1'' = 1
   \<and> decode (BaseX_new ''01'' ''1'' 0) ''11'' False = Inr [3]"
  by code_simp

text \<open>
  C7 (amended): construction never fails and does not test the alphabet.  For
  every alphabet of 1 to 256 characters with codes below 128, every ignored set
  of such characters and all flags it builds a codec whose base is the length
  of the alphabet and whose \<^verbatim>\<open>_chr\<close> holds the alphabet; a character decodes to
  the lowest alphabet index that writes it (its own, or with \<^verbatim>\<open>IGNORE_CASE\<close>
  that of the same letter in the other case), whether or not the alphabet
  repeats it or the ignored set lists it.
\<close>

theorem BaseX_new_tables:
  assumes "1 \<le> length al" and "length al \<le> 256"
    and "\<forall>ch \<in> set al. seven_bit ch" and "\<forall>ch \<in> set ig. seven_bit ch"
  shows "base (BaseX_new al ig fl) = length al
   \<and> (\<forall>i < length al. chr (BaseX_new al ig fl) i = al ! i)
   \<and> (\<forall>i < length al. \<forall>ch \<in> written fl (al ! i).
        (\<forall>j < i. ch \<notin> written fl (al ! j)) \<longrightarrow> ord (BaseX_new al ig fl) ch = i)"
  by (simp add: BaseX_new_fields(1) BaseX_new_chr BaseX_new_ord_first)

theorem BaseX_new_tables_witness:
  "1 \<le> length ''00'' \<and> length ''01'' \<le> 256
   \<and> seven_bit CHR ''0'' \<and> seven_bit CHR ''1''
   \<and> base (BaseX_new ''00'' [] 0) = 2
   \<and> chr (BaseX_new ''00'' [] 0) 1 = CHR ''0''
   \<and> ord (BaseX_new ''00'' [] 0) CHR ''0'' = 0
   \<and> ord (BaseX_new ''01'' ''1'' 0) CHR ''1'' = 1"
proof -
  have s0: "\<forall>ch \<in> set ''00''. seven_bit ch" by (simp add: seven_bit_def)
  have s1: "\<forall>ch \<in> set ''01''. seven_bit ch" by (simp add: seven_bit_def)
  have s2: "\<forall>ch \<in> set ''1''. seven_bit ch" by (simp add: seven_bit_def)
  have s3: "\<forall>ch \<in> set ([] :: string). seven_bit ch" by simp
  have t1: "base (BaseX_new ''00'' [] 0) = length ''00''
   \<and> (\<forall>i < length ''00''. chr (BaseX_new ''00'' [] 0) i = ''00'' ! i)
   \<and> (\<forall>i < length ''00''. \<forall>ch \<in> written 0 (''00'' ! i).
        (\<forall>j < i. ch \<notin> written 0 (''00'' ! j)) \<longrightarrow> ord (BaseX_new ''00'' [] 0) ch = i)"
    by (rule BaseX_new_tables [OF _ _ s0 s3]) simp_all
  have t2: "base (BaseX_new ''01'' ''1'' 0) = length ''01''
   \<and> (\<forall>i < length ''01''. chr (BaseX_new ''01'' ''1'' 0) i = ''01'' ! i)
   \<and> (\<forall>i < length ''01''. \<forall>ch \<in> written 0 (''01'' ! i).
        (\<forall>j < i. ch \<notin> written 0 (''01'' ! j)) \<longrightarrow> ord (BaseX_new ''01'' ''1'' 0) ch = i)"
    by (rule BaseX_new_tables [OF _ _ s1 s2]) simp_all
  have w: "written 0 ch = {ch}" for ch by (simp add: written_def)
  from t1 have "base (BaseX_new ''00'' [] 0) = 2" by simp
  moreover from t1 have "\<forall>i < length ''00''. chr (BaseX_new ''00'' [] 0) i = ''00'' ! i" by blast
  then have "chr (BaseX_new ''00'' [] 0) 1 = CHR ''0''" by simp
  moreover from t1 have "\<forall>i < length ''00''. \<forall>ch \<in> written 0 (''00'' ! i).
        (\<forall>j < i. ch \<notin> written 0 (''00'' ! j)) \<longrightarrow> ord (BaseX_new ''00'' [] 0) ch = i" by blast
  then have "\<forall>ch \<in> written 0 (''00'' ! 0).
        (\<forall>j < 0. ch \<notin> written 0 (''00'' ! j)) \<longrightarrow> ord (BaseX_new ''00'' [] 0) ch = 0" by blast
  then have "ord (BaseX_new ''00'' [] 0) CHR ''0'' = 0" by (simp add: w)
  moreover from t2 have "\<forall>i < length ''01''. \<forall>ch \<in> written 0 (''01'' ! i).
        (\<forall>j < i. ch \<notin> written 0 (''01'' ! j)) \<longrightarrow> ord (BaseX_new ''01'' ''1'' 0) ch = i" by blast
  then have "\<forall>ch \<in> written 0 (''01'' ! 1).
        (\<forall>j < 1. ch \<notin> written 0 (''01'' ! j)) \<longrightarrow> ord (BaseX_new ''01'' ''1'' 0) ch = 1" by simp
  then have "ord (BaseX_new ''01'' ''1'' 0) CHR ''1'' = 1" by (simp add: w)
  ultimately show ?thesis using s1 by simp
qed
subsection \<open>The round trip of a byte string\<close>

text \<open>
  C2 (as stated): for every bundled codec and every byte string s, strings with
  leading zero bytes included, decoding the encoding of s (no checksum) returns
  s.  \<^verbatim>\<open>encode\<close> reads s as a number and \<^verbatim>\<open>str(256)\<close> writes the decoded number
  without the zero bytes at its most significant end: with \<^verbatim>\<open>base58::bitcoin\<close>
  the two bytes 0x00 0x61 encode to "2g", which decodes to the one byte 0x61.
\<close>

theorem codec_round_trip_counterexample:
  "encode_bytes base58_bitcoin [CHR 0x00, CHR 0x61] False = Some (Inr ''2g'')
   \<and> decode_bytes base58_bitcoin ''2g'' False = Inr [CHR 0x61]"
  by code_simp

text \<open>
  The codecs constructed with \<^verbatim>\<open>BLOCK_PADDING\<close> shift the number left before
  they encode it and read as many digits of the shifted number as the number
  had before the shift; when the shift carries into one more digit, the bits
  carried are not encoded.  With \<^verbatim>\<open>base64::rfc4648\<close> the eight bytes "abcdefgh"
  and the eight bytes "!bcdefgh" have the same encoding, so no decoder returns
  both.
\<close>

lemma block_padding_drops_carried_bits:
  "encode_bytes base64_rfc4648 ''abcdefgh'' False = Some (Inr ''IWJjZGVmZ2g'')
   \<and> encode_bytes base64_rfc4648 ''!bcdefgh'' False = Some (Inr ''IWJjZGVmZ2g'')"
  by code_simp

text \<open>
  C2 (amended): for every bundled codec constructed without \<^verbatim>\<open>BLOCK_PADDING\<close>
  and every non-empty byte string s, encoding s (no checksum) succeeds and
  decoding the result returns s without its leading zero bytes, and the one
  byte 0x00 when every byte of s is 0x00.  So \<^verbatim>\<open>decode(encode(s)) = s\<close> holds
  for the strings that do not start with a zero byte and for the string of one
  zero byte.
\<close>

theorem codec_round_trip:
  assumes "c \<in> set unpadded_codecs" and "s \<noteq> []"
  shows "\<exists>e. encode_bytes c s False = Some (Inr e)
     \<and> decode_bytes c e False
         = Inr (if set s \<subseteq> {CHR 0x00} then [CHR 0x00] else dropWhile (\<lambda>b. b = CHR 0x00) s)"
  using assms well_formed_unpadded [of c] block_size_unpadded
  by (intro decode_encode_bytes) auto

theorem codec_round_trip_witness:
  "base58_bitcoin \<in> set unpadded_codecs \<and> ''a'' \<noteq> []
   \<and> encode_bytes base58_bitcoin ''a'' False = Some (Inr ''2g'')
   \<and> decode_bytes base58_bitcoin ''2g'' False = Inr ''a''"
proof -
  have m: "base58_bitcoin \<in> set unpadded_codecs" by (simp add: unpadded_codecs_def)
  have enc: "encode_bytes base58_bitcoin ''a'' False = Some (Inr ''2g'')" by code_simp
  from codec_round_trip [OF m, of "''a''"] enc
  have "decode_bytes base58_bitcoin ''2g'' False = Inr ''a''" by simp
  with m enc show ?thesis by simp
qed

end
